theory Spec2Isabelle
  imports Main
begin

section \<open>The host: values, elements, the document tree\<close>

text \<open>
  domx.js runs against a browser document. The part of the host that the library reads is
  modelled here: JavaScript values as far as the extractors produce them, one node of the
  document with the properties the extractors read, and the document as a tree.
  Three assumptions on the host are made throughout: selector strings are syntactically
  valid (the host's selector engine does not throw), no callback or custom read function
  calls back into the library or changes the document (either may throw), and the
  callback given to \<open>observe\<close> returns.
\<close>

datatype jsval = JUndefined | JNull | JBool bool | JString string | JArray "jsval list"

datatype error = Error string | TypeError string

text \<open>
  The properties of one node. \<open>el_matches\<close> is the host's selector engine seen from the
  node: \<open>el_matches e sel\<close> holds when \<open>element.matches(sel)\<close> is true for it.
\<close>

record element =
  el_matches :: "string \<Rightarrow> bool"
  el_value :: jsval
  el_checked :: jsval
  el_textContent :: jsval
  el_attributes :: "string \<rightharpoonup> string"
  el_dataset :: "string \<rightharpoonup> string"

text \<open>A node: its \<open>nodeType\<close> (1 for an element, 3 for a text node), its properties, its children.\<close>

datatype node = Node (nodeType: nat) (props: element) (children: "node list")

text \<open>
  A node of the document is addressed by the child indices leading to it, the index of
  the node itself first and the index below the root element last; \<open>[]\<close> is the root
  element. The parent of \<open>i # p\<close> is \<open>p\<close>.
\<close>

type_synonym path = "nat list"

fun descend :: "node \<Rightarrow> nat list \<Rightarrow> node option" where
  "descend n [] = Some n"
| "descend n (i # is) =
     (if i < length (children n) then descend (children n ! i) is else None)"

definition node_at :: "node \<Rightarrow> path \<Rightarrow> node option" where
  "node_at d p = descend d (rev p)"

definition is_element :: "node \<Rightarrow> path \<Rightarrow> bool" where
  "is_element d p = (case node_at d p of None \<Rightarrow> False | Some n \<Rightarrow> nodeType n = 1)"

text \<open>\<open>el.matches(sel)\<close> for the element at a path.\<close>

definition matches :: "node \<Rightarrow> path \<Rightarrow> string \<Rightarrow> bool" where
  "matches d p sel =
     (case node_at d p of None \<Rightarrow> False | Some n \<Rightarrow> nodeType n = 1 \<and> el_matches (props n) sel)"

text \<open>\<open>node.parentElement\<close>: the parent when it is an element, otherwise null.\<close>

definition parentElement :: "node \<Rightarrow> path \<Rightarrow> path option" where
  "parentElement d p =
     (case p of [] \<Rightarrow> None | i # q \<Rightarrow> if is_element d q then Some q else None)"

text \<open>\<open>el.closest(sel)\<close>: the nearest inclusive ancestor element that matches.\<close>

fun closest :: "node \<Rightarrow> path \<Rightarrow> string \<Rightarrow> path option" where
  "closest d [] sel = (if matches d [] sel then Some [] else None)"
| "closest d (i # q) sel =
     (if matches d (i # q) sel then Some (i # q)
      else if is_element d q then closest d q sel else None)"

text \<open>The nodes of the tree in document order, and \<open>document.querySelectorAll\<close>.\<close>

fun tree_order :: "node \<Rightarrow> node list" where
  "tree_order (Node t e cs) = Node t e cs # concat (map tree_order cs)"

definition querySelectorAll :: "node \<Rightarrow> string \<Rightarrow> node list" where
  "querySelectorAll d sel =
     filter (\<lambda>n. nodeType n = 1 \<and> el_matches (props n) sel) (tree_order d)"

section \<open>Manifests and read shortcuts\<close>

text \<open>
  A read directive is a shortcut string or a custom function of the element. A manifest
  entry has the fields \<open>selector\<close>, \<open>read\<close> and \<open>watch\<close>, each of which may be absent
  (\<open>undefined\<close>); the field \<open>write\<close> is used by \<open>apply\<close> only and is left out. A manifest
  is the list \<open>Object.entries\<close> gives, labels with their entries.
\<close>

datatype readspec = Shortcut string | Custom "node \<Rightarrow> error + jsval"

record config =
  selector :: "string option"
  read :: "readspec option"
  watch :: "string option"

type_synonym manifest = "(string \<times> config) list"

text \<open>JavaScript truthiness of an optional string and of an optional read directive.\<close>

fun truthy :: "string option \<Rightarrow> bool" where
  "truthy None = False"
| "truthy (Some s) = (s \<noteq> [])"

fun truthy_read :: "readspec option \<Rightarrow> bool" where
  "truthy_read None = False"
| "truthy_read (Some (Shortcut s)) = (s \<noteq> [])"
| "truthy_read (Some (Custom f)) = True"

definition startsWith :: "string \<Rightarrow> string \<Rightarrow> bool" where
  "startsWith s p = (take (length p) s = p)"

definition getAttribute :: "node \<Rightarrow> string \<Rightarrow> jsval" where
  "getAttribute el attr =
     (case el_attributes (props el) attr of None \<Rightarrow> JNull | Some v \<Rightarrow> JString v)"

definition dataset_get :: "node \<Rightarrow> string \<Rightarrow> jsval" where
  "dataset_get el key =
     (case el_dataset (props el) key of None \<Rightarrow> JUndefined | Some v \<Rightarrow> JString v)"

text \<open>\<open>parseRead\<close>: the extractor of a read directive, or the thrown error.\<close>

fun parseRead :: "readspec \<Rightarrow> error + (node \<Rightarrow> error + jsval)" where
  "parseRead (Custom f) = Inr f"
| "parseRead (Shortcut r) =
     (if r = ''value'' then Inr (\<lambda>el. Inr (el_value (props el)))
      else if r = ''checked'' then Inr (\<lambda>el. Inr (el_checked (props el)))
      else if r = ''text'' then Inr (\<lambda>el. Inr (el_textContent (props el)))
      else if startsWith r ''attr:'' then
        (let attr = drop 5 r in Inr (\<lambda>el. Inr (getAttribute el attr)))
      else if startsWith r ''data:'' then
        (let key = drop 5 r in Inr (\<lambda>el. Inr (dataset_get el key)))
      else Inl (Error (''Unknown read shortcut: '' @ r)))"

section \<open>collect\<close>

text \<open>
  The state object is the list of its own keys with their values, in the order of
  assignment. \<open>state[label] = v\<close> on the object made by \<open>{}\<close> replaces the value of a
  label already there and appends otherwise; for the label \<open>__proto__\<close> it runs the setter
  that \<open>Object.prototype\<close> has under this name, which creates no key.
\<close>

type_synonym state = "(string \<times> jsval) list"

fun set_key :: "string \<Rightarrow> jsval \<Rightarrow> state \<Rightarrow> state" where
  "set_key k v [] = [(k, v)]"
| "set_key k v ((k', v') # st) = (if k = k' then (k, v) # st else (k', v') # set_key k v st)"

definition assign :: "string \<Rightarrow> jsval \<Rightarrow> state \<Rightarrow> state" where
  "assign k v st = (if k = ''__proto__'' then st else set_key k v st)"

text \<open>The inner loop of \<open>collect\<close>: the extractor on each element in turn, stopping at a throw.\<close>

fun extract_all :: "(node \<Rightarrow> error + jsval) \<Rightarrow> node list \<Rightarrow> error + jsval list" where
  "extract_all f [] = Inr []"
| "extract_all f (el # els) =
     (case f el of Inl e \<Rightarrow> Inl e
      | Inr v \<Rightarrow> (case extract_all f els of Inl e \<Rightarrow> Inl e | Inr vs \<Rightarrow> Inr (v # vs)))"

text \<open>One iteration of the outer loop, on one entry.\<close>

definition collect_entry :: "node \<Rightarrow> string \<Rightarrow> config \<Rightarrow> state \<Rightarrow> error + state" where
  "collect_entry d label c st =
     (if \<not> truthy (selector c) \<or> \<not> truthy_read (read c) then Inr st
      else case parseRead (the (read c)) of
        Inl e \<Rightarrow> Inl e
      | Inr extractor \<Rightarrow>
          (let elements = querySelectorAll d (the (selector c)) in
           if length elements = 0 then Inr (assign label JNull st)
           else if length elements = 1 then
             (case extractor (elements ! 0) of Inl e \<Rightarrow> Inl e
              | Inr v \<Rightarrow> Inr (assign label v st))
           else
             (case extract_all extractor elements of Inl e \<Rightarrow> Inl e
              | Inr vs \<Rightarrow> Inr (assign label (JArray vs) st))))"

fun collect_loop :: "node \<Rightarrow> manifest \<Rightarrow> state \<Rightarrow> error + state" where
  "collect_loop d [] st = Inr st"
| "collect_loop d ((label, c) # m) st =
     (case collect_entry d label c st of Inl e \<Rightarrow> Inl e | Inr st' \<Rightarrow> collect_loop d m st')"

definition collect :: "node \<Rightarrow> manifest \<Rightarrow> error + state" where
  "collect d m = collect_loop d m []"

section \<open>The shared mutation observer\<close>

text \<open>
  A mutation record carries its type and its target. A \<open>MutationObserver\<close> is modelled
  by the node and the options of its \<open>observe\<close> call. The host queues a record for an
  observer when the record's target is the observed node, or a descendant of it if
  \<open>subtree\<close> is set, and the record's type is among the observed ones; the queue is
  delivered later, as one batch, to the observer's callback.
\<close>

datatype mutation_type = Attributes | CharacterData | ChildList

record mutation =
  mtype :: mutation_type
  target :: path

record observer =
  obs_node :: path
  childList :: bool
  subtree :: bool
  attributes :: bool
  characterData :: bool

text \<open>\<open>document.body\<close>: the document is \<open>html\<close> with the children \<open>head\<close> and \<open>body\<close>.\<close>

definition document_body :: path where
  "document_body = [1]"

definition descendant_of :: "path \<Rightarrow> path \<Rightarrow> bool" where
  "descendant_of p q = (length q < length p \<and> drop (length p - length q) p = q)"

definition interested :: "observer \<Rightarrow> mutation \<Rightarrow> bool" where
  "interested ob r =
     ((target r = obs_node ob \<or> (subtree ob \<and> descendant_of (target r) (obs_node ob))) \<and>
      (case mtype r of Attributes \<Rightarrow> attributes ob
       | CharacterData \<Rightarrow> characterData ob
       | ChildList \<Rightarrow> childList ob))"

section \<open>The state of the module and of the host\<close>

text \<open>
  A callback given to \<open>on\<close> is a function of the page: a number for its identity, and
  what it does when it is called with a batch, which is to return or to throw.
\<close>

type_synonym callback = "nat \<times> (mutation list \<Rightarrow> error option)"

text \<open>
  A subscriber in \<open>observerCallbacks\<close> is the \<open>mutationHandler\<close> closure of a session or a
  callback given to \<open>on\<close>. A delegated listener on \<open>document.body\<close> is the \<open>handler\<close>
  closure made for one manifest entry of one session; it captures the entry's selector.
  A cleanup is one closure pushed to \<open>cleanups\<close>.
\<close>

datatype subscriber = Handler nat | Raw callback

record listener =
  l_type :: string
  l_session :: nat
  l_entry :: nat
  l_selector :: "string option"

datatype cleanup = RemoveListener string nat nat | DeleteSubscriber subscriber

text \<open>The variables captured by the closures of one call of \<open>observe\<close>.\<close>

record session =
  s_manifest :: manifest
  pending :: "nat option"
  cleanups :: "cleanup list"

text \<open>
  What can be seen from outside: a session's callback called with a snapshot, a
  subscriber called with a batch, an error leaving a handler for the host.
\<close>

datatype effect = Callback nat state | Invoked subscriber "mutation list" | Uncaught error

text \<open>
  The module's variables (\<open>sharedObserver\<close>, \<open>observerCallbacks\<close>, \<open>onCallbacks\<close>, the
  sessions) and the host's (the document, the number of \<open>MutationObserver\<close> objects
  constructed, the shared observer's record queue, the listeners on \<open>document.body\<close>, the
  animation frame callbacks with their handles, the next handle). The two sets are lists
  without duplicates in insertion order.
\<close>

record world =
  document :: node
  sharedObserver :: "observer option"
  observers_created :: nat
  records :: "mutation list"
  observerCallbacks :: "subscriber list"
  onCallbacks :: "callback list"
  body_listeners :: "listener list"
  frame_callbacks :: "(nat \<times> nat) list"
  next_handle :: nat
  sessions :: "session list"
  log :: "effect list"

definition set_add :: "'a \<Rightarrow> 'a list \<Rightarrow> 'a list" where
  "set_add x xs = (if x \<in> set xs then xs else xs @ [x])"

definition set_delete :: "'a \<Rightarrow> 'a list \<Rightarrow> 'a list" where
  "set_delete x xs = removeAll x xs"

section \<open>observe\<close>

definition ensureObserver :: "world \<Rightarrow> world" where
  "ensureObserver w =
     (if sharedObserver w \<noteq> None then w
      else w\<lparr>sharedObserver :=
               Some \<lparr>obs_node = document_body, childList = True, subtree = False,
                     attributes = True, characterData = True\<rparr>,
             observers_created := Suc (observers_created w)\<rparr>)"

definition getWatchEvent :: "readspec option \<Rightarrow> string option \<Rightarrow> string option" where
  "getWatchEvent rd watchOverride =
     (if truthy watchOverride then watchOverride
      else case rd of
        Some (Custom f) \<Rightarrow> None
      | Some (Shortcut r) \<Rightarrow>
          if r = ''value'' then Some ''input''
          else if r = ''checked'' then Some ''change''
          else None
      | None \<Rightarrow> None)"

text \<open>
  \<open>requestAnimationFrame\<close> hands out the next handle and queues the callback;
  \<open>cancelAnimationFrame\<close> removes the callback with the handle. A handle is a number,
  and \<open>if (pending)\<close> tests that it is there and not zero.
\<close>

definition requestAnimationFrame :: "nat \<Rightarrow> world \<Rightarrow> nat \<times> world" where
  "requestAnimationFrame s w =
     (next_handle w,
      w\<lparr>frame_callbacks := frame_callbacks w @ [(next_handle w, s)],
        next_handle := Suc (next_handle w)\<rparr>)"

definition cancelAnimationFrame :: "nat \<Rightarrow> world \<Rightarrow> world" where
  "cancelAnimationFrame h w =
     w\<lparr>frame_callbacks := filter (\<lambda>(h', s). h' \<noteq> h) (frame_callbacks w)\<rparr>"

fun truthy_handle :: "nat option \<Rightarrow> bool" where
  "truthy_handle None = False"
| "truthy_handle (Some h) = (h \<noteq> 0)"

definition set_pending :: "nat \<Rightarrow> nat option \<Rightarrow> world \<Rightarrow> world" where
  "set_pending s v w = w\<lparr>sessions := (sessions w)[s := (sessions w ! s)\<lparr>pending := v\<rparr>]\<rparr>"

text \<open>
  \<open>scheduleCallback\<close> of session \<open>s\<close>. The closures of a session exist only once
  \<open>observe\<close> has made them, so nothing happens for a number that is no session.
\<close>

definition scheduleCallback :: "nat \<Rightarrow> world \<Rightarrow> world" where
  "scheduleCallback s w =
     (if \<not> s < length (sessions w) then w
      else if truthy_handle (pending (sessions w ! s)) then w
      else (let (h, w') = requestAnimationFrame s w in set_pending s (Some h) w'))"

text \<open>The function given to \<open>requestAnimationFrame\<close>: \<open>pending = null; callback(collect(manifest))\<close>.\<close>

definition flush :: "nat \<Rightarrow> world \<Rightarrow> world" where
  "flush s w =
     (if \<not> s < length (sessions w) then w
      else (let w' = set_pending s None w in
            case collect (document w') (s_manifest (sessions w' ! s)) of
              Inl e \<Rightarrow> w'\<lparr>log := log w' @ [Uncaught e]\<rparr>
            | Inr st \<Rightarrow> w'\<lparr>log := log w' @ [Callback s st]\<rparr>))"

text \<open>A selector that is \<open>undefined\<close> reaches the host as the string "undefined".\<close>

fun sel_arg :: "string option \<Rightarrow> string" where
  "sel_arg None = ''undefined''"
| "sel_arg (Some s) = s"

text \<open>
  The delegated \<open>handler\<close> of a listener, for an event with target \<open>t\<close>. A target that is
  no element has no \<open>matches\<close>, and the call throws into the host.
\<close>

definition handler :: "listener \<Rightarrow> path \<Rightarrow> world \<Rightarrow> world" where
  "handler l t w =
     (if \<not> is_element (document w) t then
        w\<lparr>log := log w @ [Uncaught (TypeError ''e.target.matches is not a function'')]\<rparr>
      else if matches (document w) t (sel_arg (l_selector l)) then scheduleCallback (l_session l) w
      else w)"

text \<open>The listeners and cleanups the first loop of \<open>observe\<close> makes, entry by entry.\<close>

fun new_listeners :: "nat \<Rightarrow> nat \<Rightarrow> manifest \<Rightarrow> listener list" where
  "new_listeners s i [] = []"
| "new_listeners s i ((label, c) # m) =
     (let eventType = getWatchEvent (read c) (watch c) in
      if truthy eventType then
        \<lparr>l_type = the eventType, l_session = s, l_entry = i, l_selector = selector c\<rparr>
          # new_listeners s (Suc i) m
      else new_listeners s (Suc i) m)"

definition removal :: "listener \<Rightarrow> cleanup" where
  "removal l = RemoveListener (l_type l) (l_session l) (l_entry l)"

text \<open>\<open>mutationHandler\<close>: the selectors it builds, the test of one target, the loop over the batch.\<close>

definition watchedSelectors :: "manifest \<Rightarrow> string option list" where
  "watchedSelectors m =
     map (\<lambda>(label, c). selector c)
       (filter (\<lambda>(label, c). \<not> truthy (getWatchEvent (read c) (watch c))) m)"

definition target_hit :: "node \<Rightarrow> path \<Rightarrow> string option \<Rightarrow> bool" where
  "target_hit d t sel =
     (matches d t (sel_arg sel) \<or>
      (case parentElement d t of None \<Rightarrow> False
       | Some q \<Rightarrow> closest d q (sel_arg sel) \<noteq> None))"

fun mutation_loop :: "node \<Rightarrow> string option list \<Rightarrow> mutation list \<Rightarrow> bool" where
  "mutation_loop d ws [] = False"
| "mutation_loop d ws (mu # mus) =
     (if \<not> is_element d (target mu) then mutation_loop d ws mus
      else if list_ex (target_hit d (target mu)) ws then True
      else mutation_loop d ws mus)"

definition mutationHandler :: "nat \<Rightarrow> mutation list \<Rightarrow> world \<Rightarrow> world" where
  "mutationHandler s mutations w =
     (if \<not> s < length (sessions w) then w
      else if mutation_loop (document w) (watchedSelectors (s_manifest (sessions w ! s))) mutations
        then scheduleCallback s w
      else w)"

text \<open>
  \<open>observe(manifest, callback)\<close>. The new session gets the next number, which stands for
  its callback and for the unsubscribe function returned.
\<close>

definition observe :: "manifest \<Rightarrow> world \<Rightarrow> nat \<times> world" where
  "observe m w =
     (let s = length (sessions w);
          ls = new_listeners s 0 m;
          w1 = w\<lparr>body_listeners := body_listeners w @ ls,
                 sessions := sessions w @
                   [\<lparr>s_manifest = m, pending = None,
                     cleanups = map removal ls @ [DeleteSubscriber (Handler s)]\<rparr>]\<rparr>;
          w2 = ensureObserver w1
      in (s, w2\<lparr>observerCallbacks := set_add (Handler s) (observerCallbacks w2)\<rparr>))"

text \<open>
  The cleanups. \<open>removeEventListener\<close> takes out the listener with the type and the
  handler, of which the host keeps at most one; the \<open>passive\<close> option the listener was added
  with plays no part in finding it. \<open>Set.delete\<close> of an element that is not there does
  nothing.
\<close>

fun run_cleanup :: "cleanup \<Rightarrow> world \<Rightarrow> world" where
  "run_cleanup (RemoveListener ty s i) w =
     w\<lparr>body_listeners :=
         filter (\<lambda>l. \<not> (l_type l = ty \<and> l_session l = s \<and> l_entry l = i)) (body_listeners w)\<rparr>"
| "run_cleanup (DeleteSubscriber sub) w =
     w\<lparr>observerCallbacks := set_delete sub (observerCallbacks w)\<rparr>"

text \<open>The function \<open>observe\<close> returns, for session \<open>s\<close>.\<close>

definition unsubscribe :: "nat \<Rightarrow> world \<Rightarrow> world" where
  "unsubscribe s w =
     (if \<not> s < length (sessions w) then w
      else (let w1 = (if truthy_handle (pending (sessions w ! s))
                      then set_pending s None
                             (cancelAnimationFrame (the (pending (sessions w ! s))) w)
                      else w)
            in fold run_cleanup (cleanups (sessions w ! s)) w1))"

section \<open>on\<close>

definition on :: "callback \<Rightarrow> world \<Rightarrow> world" where
  "on cb w =
     (let w1 = ensureObserver w in
      w1\<lparr>onCallbacks := set_add cb (onCallbacks w1),
         observerCallbacks := set_add (Raw cb) (observerCallbacks w1)\<rparr>)"

definition off :: "callback \<Rightarrow> world \<Rightarrow> world" where
  "off cb w =
     w\<lparr>onCallbacks := set_delete cb (onCallbacks w),
       observerCallbacks := set_delete (Raw cb) (observerCallbacks w)\<rparr>"

section \<open>The host's part: events, mutation records, frames\<close>

text \<open>
  The callback of the shared observer calls the subscribers with the batch, one after the
  other, with no \<open>try\<close> around the call: when a subscriber throws, the loop is left, the
  error goes to the host, and the subscribers after it are not called. A
  \<open>mutationHandler\<close> returns; a callback given to \<open>on\<close> does what the page made it do.
\<close>

fun thrown :: "mutation list \<Rightarrow> subscriber \<Rightarrow> error option" where
  "thrown mutations (Handler s) = None"
| "thrown mutations (Raw cb) = snd cb mutations"

definition throws :: "mutation list \<Rightarrow> subscriber \<Rightarrow> bool" where
  "throws mutations sub = (thrown mutations sub \<noteq> None)"

text \<open>One call \<open>callback(mutations)\<close> of the loop.\<close>

definition invoke :: "mutation list \<Rightarrow> subscriber \<Rightarrow> world \<Rightarrow> world" where
  "invoke mutations sub w =
     (let w' = w\<lparr>log := log w @ [Invoked sub mutations]\<rparr> in
      case sub of
        Handler s \<Rightarrow> mutationHandler s mutations w'
      | Raw cb \<Rightarrow>
          (case snd cb mutations of None \<Rightarrow> w' | Some e \<Rightarrow> w'\<lparr>log := log w' @ [Uncaught e]\<rparr>))"

fun notify_loop :: "mutation list \<Rightarrow> subscriber list \<Rightarrow> world \<Rightarrow> world" where
  "notify_loop mutations [] w = w"
| "notify_loop mutations (sub # subs) w =
     (if throws mutations sub then invoke mutations sub w
      else notify_loop mutations subs (invoke mutations sub w))"

definition notify :: "mutation list \<Rightarrow> world \<Rightarrow> world" where
  "notify mutations w = notify_loop mutations (observerCallbacks w) w"

text \<open>Mutations happen: the host queues the records the shared observer is interested in.\<close>

definition queue_records :: "mutation list \<Rightarrow> world \<Rightarrow> world" where
  "queue_records rs w =
     (case sharedObserver w of None \<Rightarrow> w
      | Some ob \<Rightarrow> w\<lparr>records := records w @ filter (interested ob) rs\<rparr>)"

text \<open>The host delivers the queue, if there is one, as one batch.\<close>

definition deliver :: "world \<Rightarrow> world" where
  "deliver w = (if records w = [] then w else notify (records w) (w\<lparr>records := []\<rparr>))"

text \<open>
  An event of a type is dispatched at a target and bubbles: the listeners of that type
  on \<open>document.body\<close> run, in the order of their registration, when the target is the body
  or inside it.
\<close>

definition dispatchEvent :: "string \<Rightarrow> path \<Rightarrow> world \<Rightarrow> world" where
  "dispatchEvent ty t w =
     (if t = document_body \<or> descendant_of t document_body
      then fold (\<lambda>l. handler l t) (filter (\<lambda>l. l_type l = ty) (body_listeners w)) w
      else w)"

text \<open>A frame: the host runs the animation frame callbacks queued so far.\<close>

definition frame :: "world \<Rightarrow> world" where
  "frame w = fold (\<lambda>(h, s). flush s) (frame_callbacks w) (w\<lparr>frame_callbacks := []\<rparr>)"

text \<open>What the page and the host can do, one step at a time, from the state at load.\<close>

datatype event =
    Observe manifest
  | Unsubscribe nat
  | On callback
  | Off callback
  | DispatchEvent string path
  | SetDocument node
  | Mutate "mutation list"
  | Deliver
  | Frame

fun step :: "event \<Rightarrow> world \<Rightarrow> world" where
  "step (Observe m) w = snd (observe m w)"
| "step (Unsubscribe s) w = unsubscribe s w"
| "step (On cb) w = on cb w"
| "step (Off cb) w = off cb w"
| "step (DispatchEvent ty t) w = dispatchEvent ty t w"
| "step (SetDocument d) w = w\<lparr>document := d\<rparr>"
| "step (Mutate rs) w = queue_records rs w"
| "step Deliver w = deliver w"
| "step Frame w = frame w"

definition run :: "event list \<Rightarrow> world \<Rightarrow> world" where
  "run evs w = fold step evs w"

definition initial :: "node \<Rightarrow> world" where
  "initial d =
     \<lparr>document = d, sharedObserver = None, observers_created = 0, records = [],
      observerCallbacks = [], onCallbacks = [], body_listeners = [], frame_callbacks = [],
      next_handle = 1, sessions = [], log = []\<rparr>"

section \<open>Notions used in the statements and proofs\<close>

text \<open>The effects of a log that are calls of the callback of session \<open>s\<close>.\<close>

fun is_callback_of :: "nat \<Rightarrow> effect \<Rightarrow> bool" where
  "is_callback_of s (Callback s' st) = (s' = s)"
| "is_callback_of s (Invoked sub b) = False"
| "is_callback_of s (Uncaught e) = False"

definition callbacks_of :: "nat \<Rightarrow> world \<Rightarrow> effect list" where
  "callbacks_of s w = filter (is_callback_of s) (log w)"

text \<open>What one run of a session's frame callback adds to the log.\<close>

definition flush_effect :: "node \<Rightarrow> manifest \<Rightarrow> nat \<Rightarrow> effect" where
  "flush_effect d m s = (case collect d m of Inl e \<Rightarrow> Uncaught e | Inr st \<Rightarrow> Callback s st)"

text \<open>A listener that one of the cleanups removes.\<close>

definition removes :: "cleanup list \<Rightarrow> listener \<Rightarrow> bool" where
  "removes cs l = (RemoveListener (l_type l) (l_session l) (l_entry l) \<in> set cs)"

text \<open>The observer as \<open>ensureObserver\<close> sets it up.\<close>

definition body_observer :: observer where
  "body_observer =
     \<lparr>obs_node = document_body, childList = True, subtree = False,
      attributes = True, characterData = True\<rparr>"

text \<open>
  A node has an ancestor that matches a selector: some proper ancestor, any number of
  levels up, is an element that matches. In a well-formed tree only elements have children.
\<close>

definition ancestor_matches :: "node \<Rightarrow> path \<Rightarrow> string \<Rightarrow> bool" where
  "ancestor_matches d t sel = list_ex (\<lambda>k. matches d (drop k t) sel) [1..<Suc (length t)]"

fun well_formed :: "node \<Rightarrow> bool" where
  "well_formed (Node t e cs) = ((cs \<noteq> [] \<longrightarrow> t = 1) \<and> list_all well_formed cs)"

text \<open>
  The invariants of the states that can be reached: on the shared observer, on the set of
  subscribers, on the records queued and delivered, on the frame callbacks and the
  handles the sessions hold, on the listeners and the cleanups.
\<close>

definition inv_observer :: "world \<Rightarrow> bool" where
  "inv_observer w =
     ((sharedObserver w = None \<and> observers_created w = 0) \<or>
      (sharedObserver w = Some body_observer \<and> observers_created w = 1))"

definition inv_subscribers :: "world \<Rightarrow> bool" where
  "inv_subscribers w = distinct (observerCallbacks w)"

definition at_body :: "mutation list \<Rightarrow> bool" where
  "at_body b = list_all (\<lambda>r. target r = document_body) b"

fun delivered_at_body :: "effect \<Rightarrow> bool" where
  "delivered_at_body (Invoked sub b) = at_body b"
| "delivered_at_body (Callback s st) = True"
| "delivered_at_body (Uncaught e) = True"

definition inv_records :: "world \<Rightarrow> bool" where
  "inv_records w = (at_body (records w) \<and> list_all delivered_at_body (log w))"

definition inv_frames :: "world \<Rightarrow> bool" where
  "inv_frames w =
     (list_all (\<lambda>(h, s). s < length (sessions w) \<and> pending (sessions w ! s) = Some h \<and>
                  h \<noteq> 0 \<and> h < next_handle w) (frame_callbacks w) \<and>
      distinct (map fst (frame_callbacks w)) \<and> 0 < next_handle w)"

definition inv_pending :: "world \<Rightarrow> bool" where
  "inv_pending w =
     (\<forall>s < length (sessions w). truthy_handle (pending (sessions w ! s)) \<longrightarrow>
        (the (pending (sessions w ! s)), s) \<in> set (frame_callbacks w))"

definition inv_listeners :: "world \<Rightarrow> bool" where
  "inv_listeners w =
     list_all (\<lambda>l. l_session l < length (sessions w) \<and>
                 removes (cleanups (sessions w ! l_session l)) l) (body_listeners w)"

definition own_cleanup :: "nat \<Rightarrow> cleanup \<Rightarrow> bool" where
  "own_cleanup s c =
     (case c of RemoveListener ty s' i \<Rightarrow> s' = s | DeleteSubscriber sub \<Rightarrow> sub = Handler s)"

definition inv_cleanups :: "world \<Rightarrow> bool" where
  "inv_cleanups w =
     (\<forall>s < length (sessions w).
        DeleteSubscriber (Handler s) \<in> set (cleanups (sessions w ! s)) \<and>
        list_all (own_cleanup s) (cleanups (sessions w ! s)))"

definition invariant :: "world \<Rightarrow> bool" where
  "invariant w = (inv_observer w \<and> inv_subscribers w \<and> inv_records w \<and> inv_frames w \<and>
           inv_pending w \<and> inv_listeners w \<and> inv_cleanups w)"

text \<open>
  The subscribers the loop reaches: those up to the first one that throws, that one
  included. What one call adds to the log.
\<close>

fun reached :: "mutation list \<Rightarrow> subscriber list \<Rightarrow> subscriber list" where
  "reached b [] = []"
| "reached b (sub # subs) = sub # (if throws b sub then [] else reached b subs)"

definition invoke_effects :: "mutation list \<Rightarrow> subscriber \<Rightarrow> effect list" where
  "invoke_effects b sub =
     Invoked sub b # (case thrown b sub of None \<Rightarrow> [] | Some e \<Rightarrow> [Uncaught e])"

text \<open>
  An entry that \<open>collect\<close> gets through without a throw: it skips the entry, or the read
  directive is one that \<open>parseRead\<close> knows and the extractor returns on every element
  the selector matches.
\<close>

definition readable :: "node \<Rightarrow> config \<Rightarrow> bool" where
  "readable d c =
     (\<not> truthy (selector c) \<or> \<not> truthy_read (read c) \<or>
      (case parseRead (the (read c)) of
         Inl e \<Rightarrow> False
       | Inr f \<Rightarrow> list_all (\<lambda>el. case f el of Inl e \<Rightarrow> False | Inr v \<Rightarrow> True)
                    (querySelectorAll d (the (selector c)))))"

text \<open>A session that can no longer be reached by any trigger.\<close>

definition quiet :: "nat \<Rightarrow> world \<Rightarrow> bool" where
  "quiet s w =
     (s < length (sessions w) \<and>
      list_all (\<lambda>(h, s'). s' \<noteq> s) (frame_callbacks w) \<and>
      list_all (\<lambda>l. l_session l \<noteq> s) (body_listeners w) \<and>
      Handler s \<notin> set (observerCallbacks w))"

text \<open>
  What happens within one coalescing window of session \<open>s\<close>: a trigger of the session
  fires, which is a call of its \<open>scheduleCallback\<close>, or the page or the host do something
  else.
\<close>

datatype activity = Trigger | Host event

fun act :: "nat \<Rightarrow> activity \<Rightarrow> world \<Rightarrow> world" where
  "act s Trigger w = scheduleCallback s w"
| "act s (Host e) w = step e w"

text \<open>A session with a flush pending.\<close>

definition armed :: "nat \<Rightarrow> world \<Rightarrow> bool" where
  "armed s w = (s < length (sessions w) \<and> truthy_handle (pending (sessions w ! s)))"

text \<open>A session with its manifest and the calls of its callback so far.\<close>

definition keeps :: "nat \<Rightarrow> manifest \<Rightarrow> effect list \<Rightarrow> world \<Rightarrow> bool" where
  "keeps s m c w =
     (s < length (sessions w) \<and> s_manifest (sessions w ! s) = m \<and> callbacks_of s w = c)"

text \<open>A step that leaves a quiet session quiet and calls its callback no further.\<close>

definition passes :: "nat \<Rightarrow> world \<Rightarrow> world \<Rightarrow> bool" where
  "passes s w w' = (quiet s w' \<and> callbacks_of s w' = callbacks_of s w)"

text \<open>A session that a trigger can arm: it exists, and the host has handles to give.\<close>

definition ready :: "node \<Rightarrow> nat \<Rightarrow> manifest \<Rightarrow> world \<Rightarrow> bool" where
  "ready d s m w =
     (0 < next_handle w \<and> document w = d \<and> s < length (sessions w) \<and>
      s_manifest (sessions w ! s) = m)"

section \<open>A document and manifests to run the definitions on\<close>

definition elem :: "string list \<Rightarrow> jsval \<Rightarrow> jsval \<Rightarrow> element" where
  "elem sels v txt =
     \<lparr>el_matches = (\<lambda>sel. sel \<in> set sels), el_value = v, el_checked = JUndefined,
      el_textContent = txt, el_attributes = Map.empty, el_dataset = Map.empty\<rparr>"

text \<open>
  \<^verbatim>\<open><html><head></head><body><input id="a" value="1"><span id="label" class="tag">Hi</span>
  <span class="tag">B</span></body></html>\<close>
\<close>

definition page :: node where
  "page =
     Node 1 (elem [''html''] JUndefined (JString ''HiB''))
       [Node 1 (elem [''head''] JUndefined (JString [])) [],
        Node 1 (elem [''body''] JUndefined (JString ''HiB''))
          [Node 1 (elem [''input'', ''#a''] (JString ''1'') (JString [])) [],
           Node 1 (elem [''span'', ''#label'', ''.tag''] JUndefined (JString ''Hi''))
             [Node 3 (elem [] JUndefined (JString ''Hi'')) []],
           Node 1 (elem [''span'', ''.tag''] JUndefined (JString ''B''))
             [Node 3 (elem [] JUndefined (JString ''B'')) []]]]"

definition entry :: "string \<Rightarrow> string \<Rightarrow> config" where
  "entry sel r = \<lparr>selector = Some sel, read = Some (Shortcut r), watch = None\<rparr>"

text \<open>\<^verbatim>\<open>{a: {selector: '#a', read: 'value'}, tags: {selector: '.tag', read: 'text'},
  none: {selector: '.none', read: 'attr:x'}}\<close>\<close>

definition form_manifest :: manifest where
  "form_manifest =
     [(''a'', entry ''#a'' ''value''), (''tags'', entry ''.tag'' ''text''),
      (''none'', entry ''.none'' ''attr:x'')]"

text \<open>\<^verbatim>\<open>{label: {selector: '#label', read: 'text'}}\<close>\<close>

definition text_manifest :: manifest where
  "text_manifest = [(''label'', entry ''#label'' ''text'')]"

text \<open>\<^verbatim>\<open>{x: {read: 'html'}}\<close>, an entry with no selector.\<close>

definition no_selector_manifest :: manifest where
  "no_selector_manifest = [(''x'', \<lparr>selector = None, read = Some (Shortcut ''html''), watch = None\<rparr>)]"

text \<open>\<^verbatim>\<open>{x: {selector: '', read: 'html'}}\<close>, an entry with an empty selector.\<close>

definition empty_selector_manifest :: manifest where
  "empty_selector_manifest =
     [(''x'', \<lparr>selector = Some [], read = Some (Shortcut ''html''), watch = None\<rparr>)]"

text \<open>
  \<^verbatim>\<open>{x: {selector: '.none', read: ''}, y: {selector: '.tag', read: ''}}\<close>: the empty string
  as read directive, with a selector that matches nothing and one that matches two
  elements.
\<close>

definition unread_manifest :: manifest where
  "unread_manifest =
     [(''x'', \<lparr>selector = Some ''.none'', read = Some (Shortcut []), watch = None\<rparr>),
      (''y'', \<lparr>selector = Some ''.tag'', read = Some (Shortcut []), watch = None\<rparr>)]"

text \<open>\<^verbatim>\<open>{"__proto__": {selector: '.none', read: 'text'}}\<close>, as \<open>JSON.parse\<close> gives it.\<close>

definition proto_manifest :: manifest where
  "proto_manifest = [(''__proto__'', entry ''.none'' ''text'')]"

text \<open>\<^verbatim>\<open>{x: {selector: '#a', read: ''}}\<close>, an entry with the empty string as read directive.\<close>

definition empty_read_manifest :: manifest where
  "empty_read_manifest =
     [(''x'', \<lparr>selector = Some ''#a'', read = Some (Shortcut []), watch = None\<rparr>)]"

text \<open>\<^verbatim>\<open>{x: {selector: '#a', read: 'html', watch: 'input'}}\<close>\<close>

definition html_manifest :: manifest where
  "html_manifest =
     [(''x'', \<lparr>selector = Some ''#a'', read = Some (Shortcut ''html''), watch = Some ''input''\<rparr>)]"

text \<open>\<^verbatim>\<open>{x: {selector: 'body', read: (el) => 'c'}}\<close>, a custom read and no \<open>watch\<close>.\<close>

definition custom_manifest :: manifest where
  "custom_manifest =
     [(''x'', \<lparr>selector = Some ''body'', read = Some (Custom (\<lambda>el. Inr (JString ''c''))),
              watch = None\<rparr>)]"

text \<open>The session of \<open>observe(text_manifest, callback)\<close> on the page just loaded.\<close>

definition text_session :: world where
  "text_session = snd (observe text_manifest (initial page))"

text \<open>
  Two batches: the character data of the text node inside \<open>#label\<close> changed; the children
  of \<open>#label\<close> changed.
\<close>

definition text_changed :: "mutation list" where
  "text_changed = [\<lparr>mtype = CharacterData, target = [0, 1, 1]\<rparr>]"

definition label_changed :: "mutation list" where
  "label_changed = [\<lparr>mtype = ChildList, target = [1, 1]\<rparr>]"

text \<open>An attribute of \<open>document.body\<close> changed.\<close>

definition body_changed :: "mutation list" where
  "body_changed = [\<lparr>mtype = Attributes, target = [1]\<rparr>]"

text \<open>A session, a raw subscriber, and a record queued for them.\<close>

definition returning :: callback where
  "returning = (7, \<lambda>b. None)"

definition throwing :: callback where
  "throwing = (8, \<lambda>b. Some (Error ''boom''))"

definition raw_session :: world where
  "raw_session = run [Observe text_manifest, On returning, Mutate body_changed] (initial page)"

text \<open>
  \<^verbatim>\<open>on(() => { throw new Error('boom') }); on(() => {})\<close>, and a record queued for the
  two callbacks.
\<close>

definition throwing_session :: world where
  "throwing_session = run [On throwing, On returning, Mutate body_changed] (initial page)"

text \<open>\<^verbatim>\<open>{a: {selector: '#a', read: 'value'}, cls: {selector: 'body', read: 'attr:class'}}\<close>\<close>

definition body_manifest :: manifest where
  "body_manifest = [(''a'', entry ''#a'' ''value''), (''cls'', entry ''body'' ''attr:class'')]"

text \<open>The page after the user typed into \<open>#a\<close>.\<close>

definition page_edited :: node where
  "page_edited =
     Node 1 (elem [''html''] JUndefined (JString ''HiB''))
       [Node 1 (elem [''head''] JUndefined (JString [])) [],
        Node 1 (elem [''body''] JUndefined (JString ''HiB''))
          [Node 1 (elem [''input'', ''#a''] (JString ''10'') (JString [])) [],
           Node 1 (elem [''span'', ''#label'', ''.tag''] JUndefined (JString ''Hi''))
             [Node 3 (elem [] JUndefined (JString ''Hi'')) []],
           Node 1 (elem [''span'', ''.tag''] JUndefined (JString ''B''))
             [Node 3 (elem [] JUndefined (JString ''B'')) []]]]"

text \<open>The session of \<open>observe(body_manifest, callback)\<close> on the page just loaded.\<close>

definition body_session :: world where
  "body_session = run [Observe body_manifest] (initial page)"

text \<open>
  The same session after an \<open>input\<close> event at \<open>#a\<close> and an attribute change of the body:
  a flush is pending and a record is queued.
\<close>

definition pending_session :: world where
  "pending_session =
     run [Observe body_manifest, DispatchEvent ''input'' [0, 1], Mutate body_changed]
       (initial page)"

text \<open>The session of \<open>observe(html_manifest, callback)\<close> after an \<open>input\<close> event at \<open>#a\<close>.\<close>

definition html_session :: world where
  "html_session = run [Observe html_manifest, DispatchEvent ''input'' [0, 1]] (initial page)"

text \<open>
  Two sessions, the first on \<open>text_manifest\<close> and the second on \<open>body_manifest\<close>, and a
  record queued for them.
\<close>

definition two_sessions :: world where
  "two_sessions =
     run [Observe text_manifest, Observe body_manifest, Mutate body_changed] (initial page)"

section \<open>collect: what a snapshot holds\<close>

lemma map_of_set_key: "map_of (set_key k v st) k' = (if k' = k then Some v else map_of st k')"
  by (induction st) auto

lemma map_of_assign:
  "map_of (assign k v st) k' =
     (if k \<noteq> ''__proto__'' \<and> k' = k then Some v else map_of st k')"
  by (simp add: assign_def map_of_set_key)

lemma collect_entry_other:
  "collect_entry d l c st = Inr st' \<Longrightarrow> k \<noteq> l \<Longrightarrow> map_of st' k = map_of st k"
  by (auto simp: collect_entry_def Let_def map_of_assign split: if_splits sum.splits)

lemma collect_loop_other:
  "collect_loop d m st = Inr st' \<Longrightarrow> k \<notin> fst ` set m \<Longrightarrow> map_of st' k = map_of st k"
proof (induction m arbitrary: st)
  case Nil
  then show ?case by simp
next
  case (Cons a m)
  obtain l c where a: "a = (l, c)" by (cases a)
  from Cons.prems(1) a obtain st1 where
    s1: "collect_entry d l c st = Inr st1" and s2: "collect_loop d m st1 = Inr st'"
    by (auto split: sum.splits)
  from Cons.prems(2) a have "k \<noteq> l" "k \<notin> fst ` set m" by auto
  with Cons.IH[OF s2] collect_entry_other[OF s1] show ?case by simp
qed

lemma extract_all_map: "extract_all f els = Inr vs \<Longrightarrow> map f els = map Inr vs"
  by (induction els arbitrary: vs) (auto split: sum.splits)

lemma collect_entry_zero:
  "collect_entry d l c st = Inr st' \<Longrightarrow> truthy (selector c) \<Longrightarrow> truthy_read (read c) \<Longrightarrow>
   l \<noteq> ''__proto__'' \<Longrightarrow>
   querySelectorAll d (the (selector c)) = [] \<Longrightarrow> map_of st' l = Some JNull"
  by (auto simp: collect_entry_def Let_def map_of_assign split: if_splits sum.splits)

lemma collect_entry_many:
  "collect_entry d l c st = Inr st' \<Longrightarrow> truthy (selector c) \<Longrightarrow> truthy_read (read c) \<Longrightarrow>
   l \<noteq> ''__proto__'' \<Longrightarrow>
   2 \<le> length (querySelectorAll d (the (selector c))) \<Longrightarrow>
   \<exists>f vs. parseRead (the (read c)) = Inr f \<and> map_of st' l = Some (JArray vs) \<and>
      map f (querySelectorAll d (the (selector c))) = map Inr vs"
  by (auto simp: collect_entry_def Let_def map_of_assign extract_all_map
           split: if_splits sum.splits)

lemma collect_loop_entry:
  assumes "collect_loop d m st = Inr st'" "distinct (map fst m)" "(l, c) \<in> set m"
  shows "\<exists>st0 st1. collect_entry d l c st0 = Inr st1 \<and> map_of st' l = map_of st1 l"
  using assms
proof (induction m arbitrary: st)
  case Nil
  then show ?case by simp
next
  case (Cons a m)
  obtain l' c' where a: "a = (l', c')" by (cases a)
  from Cons.prems(1) a obtain st1 where
    s1: "collect_entry d l' c' st = Inr st1" and s2: "collect_loop d m st1 = Inr st'"
    by (auto split: sum.splits)
  show ?case
  proof (cases "(l, c) = (l', c')")
    case True
    with Cons.prems(2) a have "l \<notin> fst ` set m" by auto
    from collect_loop_other[OF s2 this] s1 True show ?thesis by blast
  next
    case False
    with Cons.prems(3) a have "(l, c) \<in> set m" by auto
    moreover from Cons.prems(2) have "distinct (map fst m)" by simp
    ultimately show ?thesis using Cons.IH[OF s2] by blast
  qed
qed

text \<open>\<open>collect\<close> returns a snapshot when it gets through every entry without a throw.\<close>

lemma extract_all_returns:
  "list_all (\<lambda>el. case f el of Inl e \<Rightarrow> False | Inr v \<Rightarrow> True) els \<Longrightarrow>
   \<exists>vs. extract_all f els = Inr vs"
proof (induction els)
  case Nil
  then show ?case by simp
next
  case (Cons el els)
  from Cons.prems obtain v where v: "f el = Inr v" by (auto split: sum.splits)
  from Cons.prems have "list_all (\<lambda>el. case f el of Inl e \<Rightarrow> False | Inr v \<Rightarrow> True) els"
    by simp
  from Cons.IH[OF this] obtain vs where "extract_all f els = Inr vs" ..
  with v show ?case by simp
qed

lemma collect_entry_returns:
  assumes "readable d c"
  shows "\<exists>st'. collect_entry d l c st = Inr st'"
proof (cases "truthy (selector c) \<and> truthy_read (read c)")
  case False
  then show ?thesis by (auto simp: collect_entry_def)
next
  case True
  let ?els = "querySelectorAll d (the (selector c))"
  from assms True obtain f where f: "parseRead (the (read c)) = Inr f"
    and t: "list_all (\<lambda>el. case f el of Inl e \<Rightarrow> False | Inr v \<Rightarrow> True) ?els"
    by (auto simp: readable_def split: sum.splits)
  from extract_all_returns[OF t] obtain vs where vs: "extract_all f ?els = Inr vs" ..
  have "\<exists>v. f (?els ! 0) = Inr v" if "length ?els = 1"
  proof -
    from that have "?els ! 0 \<in> set ?els" by (simp add: nth_mem)
    with t have "case f (?els ! 0) of Inl e \<Rightarrow> False | Inr v \<Rightarrow> True"
      unfolding list_all_iff by blast
    then show ?thesis by (cases "f (?els ! 0)") simp_all
  qed
  with True f vs show ?thesis by (auto simp: collect_entry_def Let_def)
qed

lemma collect_returns:
  assumes "list_all (\<lambda>(l, c). readable d c) m"
  shows "\<exists>st. collect d m = Inr st"
proof -
  have e: "\<exists>st1. collect_entry d l c st = Inr st1" if "(l, c) \<in> set m" for l c st
  proof (rule collect_entry_returns)
    from assms that show "readable d c" unfolding list_all_iff by blast
  qed
  have "set m' \<subseteq> set m \<Longrightarrow> \<exists>st'. collect_loop d m' st = Inr st'" for m' st
  proof (induction m' arbitrary: st)
    case Nil
    show ?case by simp
  next
    case (Cons a m')
    obtain l c where a: "a = (l, c)" by (cases a)
    with Cons.prems have "(l, c) \<in> set m" by simp
    from e[OF this] obtain st1 where s1: "collect_entry d l c st = Inr st1" ..
    from Cons.prems have "set m' \<subseteq> set m" by simp
    from Cons.IH[OF this] obtain st' where "collect_loop d m' st1 = Inr st'" ..
    with s1 a show ?case by simp
  qed
  then show ?thesis by (simp add: collect_def)
qed

lemma collect_form_manifest:
  "collect page form_manifest =
     Inr [(''a'', JString ''1''), (''tags'', JArray [JString ''Hi'', JString ''B'']),
          (''none'', JNull)]"
  by (simp add: collect_def collect_entry_def form_manifest_def entry_def assign_def
        querySelectorAll_def page_def elem_def startsWith_def getAttribute_def)

lemma readable_form_manifest: "list_all (\<lambda>(l, c). readable page c) form_manifest"
  by (simp add: form_manifest_def entry_def readable_def startsWith_def
        querySelectorAll_def page_def elem_def)

text \<open>
  The label \<open>__proto__\<close>, which the statement below leaves aside: the selector matches
  nothing, and the snapshot has no key.
\<close>

lemma collect_proto_manifest: "collect page proto_manifest = Inr []"
  by (simp add: collect_def collect_entry_def proto_manifest_def entry_def assign_def
        querySelectorAll_def page_def elem_def)

text \<open>
  C7, as the code has it. \<open>collect\<close> skips an entry whose selector or read directive is
  missing or empty. For a manifest (an object, so its labels are distinct) and an entry
  of it with a non-empty selector, a non-empty read directive and a label other than
  \<open>__proto__\<close>: \<open>collect\<close> returns a snapshot whenever it gets through every entry without
  a throw; and every snapshot it returns has \<open>null\<close> at the entry's label if the selector
  matches no element, and if it matches two or more it has the array of the extractor's
  values on the matched elements, in document order. \<open>collect\<close> is a function of the
  document and the manifest alone.
\<close>

theorem collect_zero_null_many_array:
  assumes "distinct (map fst m)" and "(label, c) \<in> set m"
    and "truthy (selector c)" and "truthy_read (read c)" and "label \<noteq> ''__proto__''"
  shows "(list_all (\<lambda>(l, c). readable d c) m \<longrightarrow> (\<exists>st. collect d m = Inr st)) \<and>
         (\<forall>st. collect d m = Inr st \<longrightarrow>
            (querySelectorAll d (the (selector c)) = [] \<longrightarrow> map_of st label = Some JNull) \<and>
            (2 \<le> length (querySelectorAll d (the (selector c))) \<longrightarrow>
               (\<exists>f vs. parseRead (the (read c)) = Inr f \<and>
                  map_of st label = Some (JArray vs) \<and>
                  map f (querySelectorAll d (the (selector c))) = map Inr vs)))"
proof (intro conjI allI impI)
  assume "list_all (\<lambda>(l, c). readable d c) m"
  then show "\<exists>st. collect d m = Inr st" by (rule collect_returns)
next
  fix st assume "collect d m = Inr st"
  with assms(1,2) obtain st0 st1 where
    e: "collect_entry d label c st0 = Inr st1" and m: "map_of st label = map_of st1 label"
    unfolding collect_def using collect_loop_entry by blast
  {
    assume "querySelectorAll d (the (selector c)) = []"
    with collect_entry_zero[OF e assms(3,4,5)] m
    show "map_of st label = Some JNull" by simp
  }
  {
    assume "2 \<le> length (querySelectorAll d (the (selector c)))"
    with collect_entry_many[OF e assms(3,4,5)] m
    show "\<exists>f vs. parseRead (the (read c)) = Inr f \<and>
            map_of st label = Some (JArray vs) \<and>
            map f (querySelectorAll d (the (selector c))) = map Inr vs" by simp
  }
qed

theorem collect_zero_null_many_array_witness:
  "list_all (\<lambda>(l, c). readable page c) form_manifest \<and>
   (\<exists>st. collect page form_manifest = Inr st) \<and>
   collect page form_manifest =
     Inr [(''a'', JString ''1''), (''tags'', JArray [JString ''Hi'', JString ''B'']),
          (''none'', JNull)] \<and>
   querySelectorAll page ''.none'' = [] \<and>
   map_of [(''a'', JString ''1''), (''tags'', JArray [JString ''Hi'', JString ''B'']),
           (''none'', JNull)] ''none'' = Some JNull \<and>
   2 \<le> length (querySelectorAll page ''.tag'') \<and>
   (\<exists>f vs. parseRead (Shortcut ''text'') = Inr f \<and>
      map_of [(''a'', JString ''1''), (''tags'', JArray [JString ''Hi'', JString ''B'']),
              (''none'', JNull)] ''tags'' = Some (JArray vs) \<and>
      map f (querySelectorAll page ''.tag'') = map Inr vs)"
proof -
  let ?st = "[(''a'', JString ''1''), (''tags'', JArray [JString ''Hi'', JString ''B'']),
              (''none'', JNull)]"
  have d: "distinct (map fst form_manifest)"
    by (simp add: form_manifest_def)
  have n: "(''none'', entry ''.none'' ''attr:x'') \<in> set form_manifest"
    and t: "(''tags'', entry ''.tag'' ''text'') \<in> set form_manifest"
    by (simp_all add: form_manifest_def)
  have q0: "querySelectorAll page ''.none'' = []"
    and q2: "2 \<le> length (querySelectorAll page ''.tag'')"
    by (simp_all add: querySelectorAll_def page_def elem_def)
  have tn: "truthy (selector (entry ''.none'' ''attr:x''))"
    "truthy_read (read (entry ''.none'' ''attr:x''))" "''none'' \<noteq> ''__proto__''"
    by (simp_all add: entry_def)
  have tt: "truthy (selector (entry ''.tag'' ''text''))"
    "truthy_read (read (entry ''.tag'' ''text''))" "''tags'' \<noteq> ''__proto__''"
    by (simp_all add: entry_def)
  note thn = collect_zero_null_many_array[OF d n tn, of page]
  note tht = collect_zero_null_many_array[OF d t tt, of page]
  from thn readable_form_manifest have r: "\<exists>st. collect page form_manifest = Inr st"
    by blast
  from thn collect_form_manifest have
    "querySelectorAll page (the (selector (entry ''.none'' ''attr:x''))) = [] \<longrightarrow>
     map_of ?st ''none'' = Some JNull" by blast
  with q0 have a: "map_of ?st ''none'' = Some JNull" by (simp add: entry_def)
  from tht collect_form_manifest have
    "2 \<le> length (querySelectorAll page (the (selector (entry ''.tag'' ''text'')))) \<longrightarrow>
     (\<exists>f vs. parseRead (the (read (entry ''.tag'' ''text''))) = Inr f \<and>
        map_of ?st ''tags'' = Some (JArray vs) \<and>
        map f (querySelectorAll page (the (selector (entry ''.tag'' ''text'')))) = map Inr vs)"
    by blast
  with q2 have b: "\<exists>f vs. parseRead (Shortcut ''text'') = Inr f \<and>
      map_of ?st ''tags'' = Some (JArray vs) \<and>
      map f (querySelectorAll page ''.tag'') = map Inr vs"
    by (simp add: entry_def)
  from readable_form_manifest r collect_form_manifest q0 a q2 b show ?thesis by blast
qed

text \<open>
  The claim as it is written fails for an entry whose read directive is the empty
  string: it has a selector and a read directive, the selector of \<open>x\<close> matches nothing and
  the selector of \<open>y\<close> matches two elements, and the snapshot has neither label.
\<close>

theorem collect_skips_empty_read_counterexample:
  "unread_manifest =
     [(''x'', \<lparr>selector = Some ''.none'', read = Some (Shortcut []), watch = None\<rparr>),
      (''y'', \<lparr>selector = Some ''.tag'', read = Some (Shortcut []), watch = None\<rparr>)] \<and>
   querySelectorAll page ''.none'' = [] \<and>
   length (querySelectorAll page ''.tag'') = 2 \<and>
   collect page unread_manifest = Inr []"
  by (simp add: unread_manifest_def collect_def collect_entry_def querySelectorAll_def
        page_def elem_def)

section \<open>collect: unknown read shortcuts\<close>

lemma entry_throws:
  assumes "truthy (selector c)" "read c = Some (Shortcut r)" "r \<noteq> []"
    "r \<notin> {''value'', ''checked'', ''text''}" "\<not> startsWith r ''attr:''"
    "\<not> startsWith r ''data:''"
  shows "collect_entry d l c st = Inl (Error (''Unknown read shortcut: '' @ r))"
  using assms by (simp add: collect_entry_def)

lemma collect_loop_throws:
  "(l, c) \<in> set m \<Longrightarrow> (\<And>st. \<exists>e. collect_entry d l c st = Inl e) \<Longrightarrow>
   \<exists>e. collect_loop d m st = Inl e"
proof (induction m arbitrary: st)
  case Nil
  then show ?case by simp
next
  case (Cons a m)
  obtain l' c' where a: "a = (l', c')" by (cases a)
  show ?case
  proof (cases "collect_entry d l' c' st")
    case (Inl e)
    then show ?thesis by (simp add: a)
  next
    case (Inr st1)
    have "(l, c) \<noteq> (l', c')"
    proof
      assume "(l, c) = (l', c')"
      with Cons.prems(2)[of st] Inr show False by simp
    qed
    with Cons.prems(1) a have "(l, c) \<in> set m" by auto
    from Cons.IH[OF this Cons.prems(2)] Inr show ?thesis by (simp add: a)
  qed
qed

lemma flush_eq:
  "s < length (sessions w) \<Longrightarrow>
   flush s w = w\<lparr>sessions := (sessions w)[s := (sessions w ! s)\<lparr>pending := None\<rparr>],
                 log := log w @ [flush_effect (document w) (s_manifest (sessions w ! s)) s]\<rparr>"
  by (simp add: flush_def set_pending_def flush_effect_def Let_def split: sum.splits)

text \<open>
  C8, as the code has it. \<open>collect\<close> skips an entry whose selector or read directive is
  missing or empty, before it looks at the directive. For every entry with a non-empty
  selector whose read directive is a non-empty string other than \<open>value\<close>, \<open>checked\<close>,
  \<open>text\<close>, \<open>attr:*\<close> and \<open>data:*\<close>, \<open>parseRead\<close> throws "Unknown read shortcut", \<open>collect\<close>
  throws to its caller, and the frame callback of a session with that manifest passes the
  error on to the host: it is not caught, and the session's callback is not called.
\<close>

theorem unknown_shortcut_throws:
  assumes "(label, c) \<in> set m" and "truthy (selector c)" and "read c = Some (Shortcut r)"
    and "r \<noteq> []" and "r \<notin> {''value'', ''checked'', ''text''}"
    and "\<not> startsWith r ''attr:''" and "\<not> startsWith r ''data:''"
    and "s < length (sessions w)" and "s_manifest (sessions w ! s) = m"
  shows "parseRead (Shortcut r) = Inl (Error (''Unknown read shortcut: '' @ r)) \<and>
         (\<exists>e. collect d m = Inl e) \<and>
         (\<exists>e. log (flush s w) = log w @ [Uncaught e])"
proof -
  have th: "\<exists>e. collect d' m = Inl e" for d'
    unfolding collect_def
    by (rule collect_loop_throws[OF assms(1)]) (simp add: entry_throws[OF assms(2-7)])
  from th[of "document w"] obtain e where "collect (document w) m = Inl e" ..
  then have "log (flush s w) = log w @ [Uncaught e]"
    using assms(8,9) by (simp add: flush_eq flush_effect_def)
  with th assms(4-7) show ?thesis by auto
qed

theorem unknown_shortcut_throws_witness:
  "parseRead (Shortcut ''html'') = Inl (Error (''Unknown read shortcut: '' @ ''html'')) \<and>
   (\<exists>e. collect page html_manifest = Inl e) \<and>
   (\<exists>e. log (flush 0 (snd (observe html_manifest (initial page)))) =
          log (snd (observe html_manifest (initial page))) @ [Uncaught e])"
proof -
  let ?c = "\<lparr>selector = Some ''#a'', read = Some (Shortcut ''html''), watch = Some ''input''\<rparr>"
  have 1: "(''x'', ?c) \<in> set html_manifest" by (simp add: html_manifest_def)
  have 2: "truthy (selector ?c)" and 3: "read ?c = Some (Shortcut ''html'')" by simp_all
  have 4: "''html'' \<noteq> []" and 5: "''html'' \<notin> {''value'', ''checked'', ''text''}"
    and 6: "\<not> startsWith ''html'' ''attr:''" and 7: "\<not> startsWith ''html'' ''data:''"
    by (simp_all add: startsWith_def)
  have 8: "0 < length (sessions (snd (observe html_manifest (initial page))))"
    by (simp add: observe_def Let_def initial_def ensureObserver_def)
  have 9: "s_manifest (sessions (snd (observe html_manifest (initial page))) ! 0) = html_manifest"
    by (simp add: observe_def Let_def initial_def ensureObserver_def)
  show ?thesis by (rule unknown_shortcut_throws[OF 1 2 3 4 5 6 7 8 9])
qed

text \<open>
  The claim as it is written fails for an entry without a selector or with an empty one,
  whose read directive \<open>html\<close> is none of the shortcuts, and for an entry whose read
  directive is the empty string, which is none of the shortcuts either: \<open>collect\<close> returns
  the empty snapshot.
\<close>

theorem unknown_shortcut_no_selector_counterexample:
  "read (snd (hd no_selector_manifest)) = Some (Shortcut ''html'') \<and>
   read (snd (hd empty_selector_manifest)) = Some (Shortcut ''html'') \<and>
   read (snd (hd empty_read_manifest)) = Some (Shortcut []) \<and>
   ''html'' \<notin> {''value'', ''checked'', ''text''} \<and>
   \<not> startsWith ''html'' ''attr:'' \<and> \<not> startsWith ''html'' ''data:'' \<and>
   [] \<notin> {''value'', ''checked'', ''text''} \<and>
   \<not> startsWith [] ''attr:'' \<and> \<not> startsWith [] ''data:'' \<and>
   collect page no_selector_manifest = Inr [] \<and>
   collect page empty_selector_manifest = Inr [] \<and>
   collect page empty_read_manifest = Inr []"
  by (simp add: no_selector_manifest_def empty_selector_manifest_def empty_read_manifest_def
        startsWith_def collect_def collect_entry_def)

section \<open>unsubscribe: what it changes\<close>

lemma fold_run_cleanup:
  "fold run_cleanup cs w =
     w\<lparr>body_listeners := filter (\<lambda>l. \<not> removes cs l) (body_listeners w),
       observerCallbacks :=
         filter (\<lambda>sub. DeleteSubscriber sub \<notin> set cs) (observerCallbacks w)\<rparr>"
proof (induction cs arbitrary: w)
  case Nil
  then show ?case by (simp add: removes_def)
next
  case (Cons c cs)
  show ?case
  proof (cases c)
    case (RemoveListener ty s i)
    have "filter (\<lambda>l. \<not> removes cs l)
            (filter (\<lambda>l. \<not> (l_type l = ty \<and> l_session l = s \<and> l_entry l = i))
               (body_listeners w))
        = filter (\<lambda>l. \<not> removes (c # cs) l) (body_listeners w)"
      unfolding filter_filter by (rule filter_cong) (auto simp: removes_def RemoveListener)
    then show ?thesis by (simp add: Cons.IH RemoveListener)
  next
    case (DeleteSubscriber sub)
    have "filter (\<lambda>x. DeleteSubscriber x \<notin> set cs) (removeAll sub (observerCallbacks w))
        = filter (\<lambda>x. DeleteSubscriber x \<notin> set (c # cs)) (observerCallbacks w)"
      unfolding removeAll_filter_not_eq filter_filter
      by (rule filter_cong) (auto simp: DeleteSubscriber)
    moreover have "removes (c # cs) = removes cs"
      by (auto simp: removes_def DeleteSubscriber fun_eq_iff)
    ultimately show ?thesis by (simp add: Cons.IH DeleteSubscriber set_delete_def)
  qed
qed

lemma sessions_unsubscribe:
  "sessions (unsubscribe s w) =
     (if s < length (sessions w) \<and> truthy_handle (pending (sessions w ! s))
      then (sessions w)[s := (sessions w ! s)\<lparr>pending := None\<rparr>] else sessions w)"
  by (simp add: unsubscribe_def Let_def fold_run_cleanup set_pending_def
        cancelAnimationFrame_def)

lemma log_unsubscribe: "log (unsubscribe s w) = log w"
  by (simp add: unsubscribe_def Let_def fold_run_cleanup set_pending_def
        cancelAnimationFrame_def)

lemma unsubscribe_unsubscribe: "unsubscribe s (unsubscribe s w) = unsubscribe s w"
proof (cases "s < length (sessions w)")
  case False
  then show ?thesis by (simp add: unsubscribe_def)
next
  case True
  let ?w = "unsubscribe s w"
  have len: "s < length (sessions ?w)" using True by (simp add: sessions_unsubscribe)
  have p: "\<not> truthy_handle (pending (sessions ?w ! s))"
    using True by (simp add: sessions_unsubscribe)
  have c: "cleanups (sessions ?w ! s) = cleanups (sessions w ! s)"
    using True by (simp add: sessions_unsubscribe)
  have "unsubscribe s ?w = fold run_cleanup (cleanups (sessions w ! s)) ?w"
    using len p c by (simp add: unsubscribe_def)
  also have "\<dots> = ?w"
    using True by (simp add: fold_run_cleanup unsubscribe_def Let_def)
  finally show ?thesis .
qed

lemma unsubscribe_funpow: "(unsubscribe s ^^ Suc n) w = unsubscribe s w"
proof (induction n)
  case 0
  show ?case by simp
next
  case (Suc n)
  have "(unsubscribe s ^^ Suc (Suc n)) w = unsubscribe s ((unsubscribe s ^^ Suc n) w)" by simp
  also have "\<dots> = unsubscribe s (unsubscribe s w)" by (simp only: Suc.IH)
  finally show ?case by (simp only: unsubscribe_unsubscribe)
qed

section \<open>mutationHandler: which batches schedule a flush\<close>

lemma well_formed_children: "well_formed n \<Longrightarrow> i < length (children n) \<Longrightarrow> well_formed (children n ! i)"
  by (cases n) (simp add: list_all_length)

lemma well_formed_parent: "well_formed n \<Longrightarrow> i < length (children n) \<Longrightarrow> nodeType n = 1"
  by (cases n) auto

lemma descend_snoc:
  "descend n (xs @ [i]) =
     (case descend n xs of None \<Rightarrow> None
      | Some n' \<Rightarrow> if i < length (children n') then Some (children n' ! i) else None)"
  by (induction xs arbitrary: n) auto

lemma descend_well_formed: "well_formed n \<Longrightarrow> descend n xs = Some n' \<Longrightarrow> well_formed n'"
proof (induction xs arbitrary: n)
  case Nil
  then show ?case by simp
next
  case (Cons i xs)
  from Cons.prems(2) have i: "i < length (children n)"
    and d: "descend (children n ! i) xs = Some n'"
    by (simp_all split: if_splits)
  from well_formed_children[OF Cons.prems(1) i] d show ?case by (rule Cons.IH)
qed

lemma parent_is_element:
  assumes "well_formed d" "node_at d (i # q) = Some n"
  shows "is_element d q"
proof -
  from assms(2) obtain n' where n': "descend d (rev q) = Some n'" and i: "i < length (children n')"
    by (auto simp: node_at_def descend_snoc split: option.splits if_splits)
  from descend_well_formed[OF assms(1) n'] i have "nodeType n' = 1"
    by (rule well_formed_parent)
  with n' show ?thesis by (simp add: is_element_def node_at_def)
qed

lemma closest_iff:
  "well_formed d \<Longrightarrow> is_element d q \<Longrightarrow>
   (closest d q sel \<noteq> None) = (\<exists>k \<le> length q. matches d (drop k q) sel)"
proof (induction q)
  case Nil
  then show ?case by simp
next
  case (Cons i q)
  from Cons.prems(2) obtain n where "node_at d (i # q) = Some n"
    by (auto simp: is_element_def split: option.splits)
  from parent_is_element[OF Cons.prems(1) this] have e: "is_element d q" .
  have "(\<exists>k \<le> length (i # q). matches d (drop k (i # q)) sel)
      = (matches d (i # q) sel \<or> (\<exists>k \<le> length q. matches d (drop k q) sel))"
  proof
    assume "\<exists>k \<le> length (i # q). matches d (drop k (i # q)) sel"
    then obtain k where k: "k \<le> length (i # q)" "matches d (drop k (i # q)) sel" by blast
    show "matches d (i # q) sel \<or> (\<exists>k \<le> length q. matches d (drop k q) sel)"
    proof (cases k)
      case 0
      with k show ?thesis by simp
    next
      case (Suc j)
      with k have "j \<le> length q" "matches d (drop j q) sel" by simp_all
      then show ?thesis by blast
    qed
  next
    assume "matches d (i # q) sel \<or> (\<exists>k \<le> length q. matches d (drop k q) sel)"
    then show "\<exists>k \<le> length (i # q). matches d (drop k (i # q)) sel"
    proof
      assume "matches d (i # q) sel"
      then have "matches d (drop 0 (i # q)) sel" by simp
      then show ?thesis by blast
    next
      assume "\<exists>k \<le> length q. matches d (drop k q) sel"
      then obtain k where "k \<le> length q" "matches d (drop k q) sel" by blast
      then have "Suc k \<le> length (i # q)" "matches d (drop (Suc k) (i # q)) sel" by simp_all
      then show ?thesis by blast
    qed
  qed
  with Cons.IH[OF Cons.prems(1) e] e show ?case by simp
qed

lemma ancestor_matches_iff:
  "ancestor_matches d t sel = (\<exists>k. 1 \<le> k \<and> k \<le> length t \<and> matches d (drop k t) sel)"
  by (auto simp: ancestor_matches_def list_ex_iff)

lemma ancestor_matches_Cons:
  "ancestor_matches d (i # q) sel = (\<exists>k \<le> length q. matches d (drop k q) sel)"
proof
  assume "ancestor_matches d (i # q) sel"
  then obtain k where k: "1 \<le> k" "k \<le> length (i # q)" "matches d (drop k (i # q)) sel"
    unfolding ancestor_matches_iff by blast
  then obtain j where "k = Suc j" by (cases k) auto
  with k have "j \<le> length q" "matches d (drop j q) sel" by simp_all
  then show "\<exists>k \<le> length q. matches d (drop k q) sel" by blast
next
  assume "\<exists>k \<le> length q. matches d (drop k q) sel"
  then obtain k where "k \<le> length q" "matches d (drop k q) sel" by blast
  then have "1 \<le> Suc k" "Suc k \<le> length (i # q)" "matches d (drop (Suc k) (i # q)) sel"
    by simp_all
  then show "ancestor_matches d (i # q) sel" unfolding ancestor_matches_iff by blast
qed

lemma target_hit_iff:
  assumes "well_formed d" "is_element d t"
  shows "target_hit d t sel = (matches d t (sel_arg sel) \<or> ancestor_matches d t (sel_arg sel))"
proof (cases t)
  case Nil
  then show ?thesis by (simp add: target_hit_def parentElement_def ancestor_matches_iff)
next
  case (Cons i q)
  from assms(2) Cons obtain n where "node_at d (i # q) = Some n"
    by (auto simp: is_element_def split: option.splits)
  from parent_is_element[OF assms(1) this] have e: "is_element d q" .
  show ?thesis
    using closest_iff[OF assms(1) e] e
    by (simp add: Cons target_hit_def parentElement_def ancestor_matches_Cons)
qed

lemma mutation_loop_iff:
  "well_formed d \<Longrightarrow>
   mutation_loop d ws mus =
     (\<exists>mu \<in> set mus. is_element d (target mu) \<and>
        (\<exists>sel \<in> set ws. matches d (target mu) (sel_arg sel) \<or>
                        ancestor_matches d (target mu) (sel_arg sel)))"
  by (induction mus) (auto simp: list_ex_iff target_hit_iff)

lemma well_formed_page: "well_formed page"
  by (simp add: page_def)

lemma text_session_eq:
  "text_session =
     \<lparr>document = page, sharedObserver = Some body_observer, observers_created = 1,
      records = [], observerCallbacks = [Handler 0], onCallbacks = [], body_listeners = [],
      frame_callbacks = [], next_handle = 1,
      sessions = [\<lparr>s_manifest = text_manifest, pending = None,
                   cleanups = [DeleteSubscriber (Handler 0)]\<rparr>],
      log = []\<rparr>"
  by (simp add: text_session_def observe_def Let_def initial_def ensureObserver_def
        set_add_def body_observer_def text_manifest_def entry_def getWatchEvent_def)

lemma watched_text_manifest: "watchedSelectors text_manifest = [Some ''#label'']"
  by (simp add: watchedSelectors_def text_manifest_def entry_def getWatchEvent_def)

text \<open>
  C2, as the code has it. \<open>mutationHandler\<close> skips every record whose target is not an
  element (\<open>nodeType !== 1\<close>). In a well-formed document it calls \<open>scheduleCallback\<close> if and
  only if some record of the batch has a target that is an element and that matches one of
  the session's watched selectors itself or has an ancestor matching one of them.
\<close>

theorem mutationHandler_schedules_iff:
  assumes "well_formed (document w)" and "s < length (sessions w)"
  shows "mutationHandler s mus w =
     (if \<exists>mu \<in> set mus. is_element (document w) (target mu) \<and>
           (\<exists>sel \<in> set (watchedSelectors (s_manifest (sessions w ! s))).
              matches (document w) (target mu) (sel_arg sel) \<or>
              ancestor_matches (document w) (target mu) (sel_arg sel))
      then scheduleCallback s w else w)"
  using assms by (simp add: mutationHandler_def mutation_loop_iff)

theorem mutationHandler_schedules_iff_witness:
  "well_formed (document text_session) \<and> 0 < length (sessions text_session) \<and>
   mutationHandler 0 label_changed text_session = scheduleCallback 0 text_session"
proof -
  have 1: "well_formed (document text_session)"
    by (simp add: text_session_eq well_formed_page)
  have 2: "0 < length (sessions text_session)"
    by (simp add: text_session_eq)
  have 3: "is_element page [1, 1]"
    by (simp add: is_element_def node_at_def page_def)
  have 4: "matches page [1, 1] ''#label''"
    by (simp add: matches_def node_at_def page_def elem_def)
  from mutationHandler_schedules_iff[OF 1 2, of label_changed] 1 2 3 4 show ?thesis
    by (simp add: text_session_eq watched_text_manifest label_changed_def)
qed

text \<open>
  The claim as it is written fails for the case it names: the text node inside the
  text-read element \<open>#label\<close> has an ancestor matching the watched selector, and the
  handler, given the character-data record of that node, leaves the state as it was;
  through the shared observer the record does not reach the handler either, and after
  the next frame the log is empty.
\<close>

theorem mutationHandler_text_node_counterexample:
  "watchedSelectors text_manifest = [Some ''#label''] \<and>
   ancestor_matches page [0, 1, 1] ''#label'' \<and>
   mutationHandler 0 text_changed text_session = text_session \<and>
   log (run [Observe text_manifest, Mutate text_changed, Deliver, Frame] (initial page)) = []"
proof -
  have "ancestor_matches page [0, 1, 1] ''#label''"
    by (simp add: ancestor_matches_def matches_def node_at_def page_def elem_def)
  moreover have "mutationHandler 0 text_changed text_session = text_session"
    by (simp add: mutationHandler_def text_session_eq watched_text_manifest text_changed_def
          is_element_def node_at_def page_def)
  moreover have
    "log (run [Observe text_manifest, Mutate text_changed, Deliver, Frame] (initial page)) = []"
    by (simp add: run_def text_session_eq[unfolded text_session_def] queue_records_def
          body_observer_def interested_def document_body_def text_changed_def deliver_def
          frame_def)
  ultimately show ?thesis by (simp add: watched_text_manifest)
qed

section \<open>The shared observer: the loop over the subscribers\<close>

lemma notify_loop_fold: "notify_loop b subs w = fold (invoke b) (reached b subs) w"
  by (induction subs arbitrary: w) simp_all

lemma deliver_fold:
  "deliver w =
     (if records w = [] then w
      else fold (invoke (records w)) (reached (records w) (observerCallbacks w))
             (w\<lparr>records := []\<rparr>))"
  by (simp add: deliver_def notify_def notify_loop_fold)

lemma reached_subset: "set (reached b subs) \<subseteq> set subs"
  by (induction subs) auto

lemma distinct_reached: "distinct subs \<Longrightarrow> distinct (reached b subs)"
  using reached_subset[of b] by (induction subs) auto

lemma reached_all: "list_all (\<lambda>sub. \<not> throws b sub) subs \<Longrightarrow> reached b subs = subs"
  by (induction subs) simp_all

lemma reached_filter:
  "sub \<in> set (reached b subs) \<Longrightarrow> P sub \<Longrightarrow> sub \<in> set (reached b (filter P subs))"
  by (induction subs) (auto split: if_splits)

lemma reached_nth:
  "distinct subs \<Longrightarrow> i < length subs \<Longrightarrow>
   (subs ! i \<in> set (reached b subs)) = (\<forall>j < i. \<not> throws b (subs ! j))"
proof (induction subs arbitrary: i)
  case Nil
  then show ?case by simp
next
  case (Cons x xs)
  show ?case
  proof (cases i)
    case 0
    then show ?thesis by simp
  next
    case (Suc k)
    with Cons.prems have k: "k < length xs" and d: "distinct xs" and n: "xs ! k \<noteq> x"
      by auto
    from Cons.IH[OF d k] have
      "(xs ! k \<in> set (reached b xs)) = (\<forall>j < k. \<not> throws b (xs ! j))" .
    with n Suc show ?thesis by (simp add: All_less_Suc2)
  qed
qed

lemma reached_ahead:
  "sub \<in> set subs \<Longrightarrow>
   list_all (\<lambda>x. \<not> throws b x) (takeWhile (\<lambda>x. x \<noteq> sub) subs) \<Longrightarrow>
   sub \<in> set (reached b subs)"
  by (induction subs) (auto split: if_splits)

lemma invoke_Handler:
  "invoke b (Handler s) w = mutationHandler s b (w\<lparr>log := log w @ [Invoked (Handler s) b]\<rparr>)"
  by (simp add: invoke_def)

lemma invoke_Raw: "invoke b (Raw cb) w = w\<lparr>log := log w @ invoke_effects b (Raw cb)\<rparr>"
  by (simp add: invoke_def invoke_effects_def split: option.splits)

lemma invoke_effects_no_callback:
  "list_all (\<lambda>e. \<not> is_callback_of s e) (invoke_effects b sub)"
  by (simp add: invoke_effects_def split: option.splits)

section \<open>The invariant of the reachable states\<close>

lemma scheduleCallback_eq:
  "scheduleCallback s w =
     (if s < length (sessions w) \<and> \<not> truthy_handle (pending (sessions w ! s))
      then w\<lparr>frame_callbacks := frame_callbacks w @ [(next_handle w, s)],
             next_handle := Suc (next_handle w),
             sessions := (sessions w)[s := (sessions w ! s)\<lparr>pending := Some (next_handle w)\<rparr>]\<rparr>
      else w)"
  by (simp add: scheduleCallback_def requestAnimationFrame_def set_pending_def)

lemmas inv_defs = inv_observer_def inv_subscribers_def inv_records_def inv_frames_def
  inv_pending_def inv_listeners_def inv_cleanups_def

lemma truthy_handle_iff: "truthy_handle p = (\<exists>h. p = Some h \<and> h \<noteq> 0)"
  by (cases p) auto

lemma invariant_scheduleCallback_frames: "inv_frames w \<Longrightarrow> inv_frames (scheduleCallback s w)"
  by (auto simp: scheduleCallback_eq inv_frames_def list_all_iff nth_list_update truthy_handle_iff)

lemma invariant_scheduleCallback_pending: "inv_frames w \<Longrightarrow> inv_pending w \<Longrightarrow> inv_pending (scheduleCallback s w)"
  by (auto simp: scheduleCallback_eq inv_frames_def inv_pending_def nth_list_update)

lemma invariant_scheduleCallback_rest:
  "inv_observer (scheduleCallback s w) = inv_observer w"
  "inv_subscribers (scheduleCallback s w) = inv_subscribers w"
  "inv_records (scheduleCallback s w) = inv_records w"
  "inv_listeners (scheduleCallback s w) = inv_listeners w"
  "inv_cleanups (scheduleCallback s w) = inv_cleanups w"
  by (auto simp: scheduleCallback_eq inv_defs nth_list_update list_all_iff)

lemma invariant_scheduleCallback: "invariant w \<Longrightarrow> invariant (scheduleCallback s w)"
  by (simp add: invariant_def invariant_scheduleCallback_rest invariant_scheduleCallback_frames invariant_scheduleCallback_pending)


lemma invariant_log_append:
  "invariant w \<Longrightarrow> delivered_at_body e \<Longrightarrow> invariant (w\<lparr>log := log w @ [e]\<rparr>)"
  by (simp add: invariant_def inv_defs)

lemma invariant_log_appends:
  "invariant w \<Longrightarrow> list_all delivered_at_body es \<Longrightarrow> invariant (w\<lparr>log := log w @ es\<rparr>)"
  by (simp add: invariant_def inv_defs)

lemma invariant_handler: "invariant w \<Longrightarrow> invariant (handler l t w)"
  by (simp add: handler_def invariant_scheduleCallback invariant_log_append)

lemma invariant_mutationHandler: "invariant w \<Longrightarrow> invariant (mutationHandler s b w)"
  by (simp add: mutationHandler_def invariant_scheduleCallback)

lemma invariant_invoke: "at_body b \<Longrightarrow> invariant w \<Longrightarrow> invariant (invoke b sub w)"
  by (cases sub)
     (simp_all add: invoke_def Let_def invariant_mutationHandler invariant_log_append
        invariant_log_appends split: option.splits)

lemma invariant_fold: "(\<And>x w. invariant w \<Longrightarrow> invariant (f x w)) \<Longrightarrow> invariant w \<Longrightarrow> invariant (fold f xs w)"
  by (induction xs arbitrary: w) simp_all

lemma invariant_dispatchEvent: "invariant w \<Longrightarrow> invariant (dispatchEvent ty t w)"
  by (simp add: dispatchEvent_def invariant_fold invariant_handler)

lemma invariant_deliver: "invariant w \<Longrightarrow> invariant (deliver w)"
proof -
  assume w: "invariant w"
  then have b: "at_body (records w)" by (simp add: invariant_def inv_records_def)
  from w have "invariant (w\<lparr>records := []\<rparr>)" by (simp add: invariant_def inv_defs at_body_def)
  then have "invariant (fold (invoke (records w)) (reached (records w) (observerCallbacks w))
                          (w\<lparr>records := []\<rparr>))"
    by (rule invariant_fold[rotated]) (rule invariant_invoke[OF b])
  with w show ?thesis by (simp add: deliver_fold)
qed

lemma interested_body: "interested body_observer r \<Longrightarrow> target r = document_body"
  by (simp add: interested_def body_observer_def)

lemma invariant_queue_records: "invariant w \<Longrightarrow> invariant (queue_records rs w)"
  by (auto simp: queue_records_def invariant_def inv_defs at_body_def list_all_iff interested_body
           split: option.splits)

lemma invariant_ensureObserver: "invariant w \<Longrightarrow> invariant (ensureObserver w)"
  by (auto simp: ensureObserver_def invariant_def inv_defs body_observer_def)

lemma distinct_set_add: "distinct xs \<Longrightarrow> distinct (set_add x xs)"
  by (simp add: set_add_def)

lemma invariant_on: "invariant w \<Longrightarrow> invariant (on cb w)"
proof -
  assume "invariant w"
  then have "invariant (ensureObserver w)" by (rule invariant_ensureObserver)
  then show ?thesis
    by (simp add: on_def Let_def invariant_def inv_defs distinct_set_add)
qed

lemma invariant_off: "invariant w \<Longrightarrow> invariant (off cb w)"
  by (simp add: off_def invariant_def inv_defs set_delete_def distinct_removeAll)

lemma invariant_SetDocument: "invariant w \<Longrightarrow> invariant (w\<lparr>document := d\<rparr>)"
  by (simp add: invariant_def inv_defs)

lemma invariant_initial: "invariant (initial d)"
  by (simp add: invariant_def inv_defs initial_def at_body_def)


lemma new_listeners_session: "l \<in> set (new_listeners s i m) \<Longrightarrow> l_session l = s"
  by (induction s i m rule: new_listeners.induct) (auto simp: Let_def split: if_splits)

lemma removes_removal: "l \<in> set ls \<Longrightarrow> removes (map removal ls @ cs) l"
  by (auto simp: removes_def removal_def)

lemma observe_eq:
  "snd (observe m w) =
     (ensureObserver w)\<lparr>
        body_listeners := body_listeners w @ new_listeners (length (sessions w)) 0 m,
        sessions := sessions w @
          [\<lparr>s_manifest = m, pending = None,
            cleanups = map removal (new_listeners (length (sessions w)) 0 m) @
                       [DeleteSubscriber (Handler (length (sessions w)))]\<rparr>],
        observerCallbacks :=
          set_add (Handler (length (sessions w))) (observerCallbacks w)\<rparr>"
  by (simp add: observe_def Let_def ensureObserver_def)

lemma invariant_observe:
  assumes "invariant w"
  shows "invariant (snd (observe m w))"
proof -
  let ?s = "length (sessions w)"
  let ?ls = "new_listeners ?s 0 m"
  from assms have e: "invariant (ensureObserver w)" by (rule invariant_ensureObserver)
  have f: "sessions (ensureObserver w) = sessions w"
    "body_listeners (ensureObserver w) = body_listeners w"
    "observerCallbacks (ensureObserver w) = observerCallbacks w"
    "frame_callbacks (ensureObserver w) = frame_callbacks w"
    "next_handle (ensureObserver w) = next_handle w"
    "records (ensureObserver w) = records w"
    "log (ensureObserver w) = log w"
    by (simp_all add: ensureObserver_def)
  have 1: "inv_observer (snd (observe m w))"
    using e by (simp add: observe_eq invariant_def inv_observer_def)
  have 2: "inv_subscribers (snd (observe m w))"
    using assms by (simp add: observe_eq invariant_def inv_subscribers_def distinct_set_add)
  have 3: "inv_records (snd (observe m w))"
    using assms by (simp add: observe_eq invariant_def inv_records_def f)
  have 4: "inv_frames (snd (observe m w))"
    using assms by (auto simp: observe_eq invariant_def inv_frames_def f list_all_iff nth_append)
  have 5: "inv_pending (snd (observe m w))"
    using assms by (auto simp: observe_eq invariant_def inv_pending_def f nth_append less_Suc_eq)
  have 6: "inv_listeners (snd (observe m w))"
    using assms
    by (auto simp: observe_eq invariant_def inv_listeners_def f list_all_iff nth_append
          new_listeners_session removes_removal)
  have own: "list_all (own_cleanup ?s) (map removal ?ls @ [DeleteSubscriber (Handler ?s)])"
    by (auto simp: list_all_iff own_cleanup_def removal_def new_listeners_session)
  have 7: "inv_cleanups (snd (observe m w))"
    using assms own
    by (auto simp: observe_eq invariant_def inv_cleanups_def f nth_append less_Suc_eq)
  from 1 2 3 4 5 6 7 show ?thesis by (simp add: invariant_def)
qed


lemma unsubscribe_eq:
  "s < length (sessions w) \<Longrightarrow>
   unsubscribe s w =
     w\<lparr>frame_callbacks :=
         (if truthy_handle (pending (sessions w ! s))
          then filter (\<lambda>(h', s'). h' \<noteq> the (pending (sessions w ! s))) (frame_callbacks w)
          else frame_callbacks w),
       sessions :=
         (if truthy_handle (pending (sessions w ! s))
          then (sessions w)[s := (sessions w ! s)\<lparr>pending := None\<rparr>] else sessions w),
       body_listeners :=
         filter (\<lambda>l. \<not> removes (cleanups (sessions w ! s)) l) (body_listeners w),
       observerCallbacks :=
         filter (\<lambda>sub. DeleteSubscriber sub \<notin> set (cleanups (sessions w ! s)))
           (observerCallbacks w)\<rparr>"
  by (simp add: unsubscribe_def Let_def fold_run_cleanup set_pending_def
        cancelAnimationFrame_def)

lemma inv_frames_unsubscribe:
  assumes "inv_frames w" "s < length (sessions w)"
  shows "inv_frames (unsubscribe s w)"
proof (cases "truthy_handle (pending (sessions w ! s))")
  case False
  with assms show ?thesis by (simp add: unsubscribe_eq inv_frames_def)
next
  case True
  then obtain h where h: "pending (sessions w ! s) = Some h" "h \<noteq> 0"
    by (auto simp: truthy_handle_iff)
  have "list_all (\<lambda>(h', s'). s' < length (sessions w) \<and>
            pending ((sessions w)[s := (sessions w ! s)\<lparr>pending := None\<rparr>] ! s') = Some h' \<and>
            h' \<noteq> 0 \<and> h' < next_handle w)
          (filter (\<lambda>(h', s'). h' \<noteq> h) (frame_callbacks w))"
    using assms h by (auto simp: inv_frames_def list_all_iff nth_list_update)
  moreover have "distinct (map fst (filter (\<lambda>(h', s'). h' \<noteq> h) (frame_callbacks w)))"
    using assms(1) by (simp add: inv_frames_def distinct_map_filter)
  ultimately show ?thesis
    using assms True h by (simp add: unsubscribe_eq inv_frames_def)
qed

lemma inv_pending_unsubscribe:
  assumes "inv_frames w" "inv_pending w" "s < length (sessions w)"
  shows "inv_pending (unsubscribe s w)"
proof (cases "truthy_handle (pending (sessions w ! s))")
  case False
  with assms show ?thesis by (simp add: unsubscribe_eq inv_pending_def)
next
  case True
  then obtain h where h: "pending (sessions w ! s) = Some h" "h \<noteq> 0"
    by (auto simp: truthy_handle_iff)
  from assms(2,3) True h have hs: "(h, s) \<in> set (frame_callbacks w)"
    by (auto simp: inv_pending_def)
  have "(the (pending (sessions w ! s')), s') \<in> set (filter (\<lambda>(h', s'). h' \<noteq> h) (frame_callbacks w))"
    if s': "s' < length (sessions w)" "s' \<noteq> s" "truthy_handle (pending (sessions w ! s'))" for s'
  proof -
    from s' obtain h' where h': "pending (sessions w ! s') = Some h'"
      by (auto simp: truthy_handle_iff)
    from assms(2) s' h' have in': "(h', s') \<in> set (frame_callbacks w)"
      by (auto simp: inv_pending_def)
    have "h' \<noteq> h"
    proof
      assume "h' = h"
      with in' hs assms(1) have "s' = s"
        by (auto simp: inv_frames_def dest: eq_key_imp_eq_value)
      with s' show False by simp
    qed
    with in' h' show ?thesis by simp
  qed
  then show ?thesis
    using assms(3) True h by (auto simp: unsubscribe_eq inv_pending_def nth_list_update)
qed

lemma invariant_unsubscribe:
  assumes "invariant w"
  shows "invariant (unsubscribe s w)"
proof (cases "s < length (sessions w)")
  case False
  with assms show ?thesis by (simp add: unsubscribe_def)
next
  case True
  from assms have 1: "inv_observer (unsubscribe s w)"
    using True by (simp add: unsubscribe_eq invariant_def inv_observer_def)
  from assms have 2: "inv_subscribers (unsubscribe s w)"
    using True by (simp add: unsubscribe_eq invariant_def inv_subscribers_def)
  from assms have 3: "inv_records (unsubscribe s w)"
    using True by (simp add: unsubscribe_eq invariant_def inv_records_def)
  from assms have 4: "inv_frames (unsubscribe s w)"
    using True by (simp add: invariant_def inv_frames_unsubscribe)
  from assms have 5: "inv_pending (unsubscribe s w)"
    using True by (simp add: invariant_def inv_pending_unsubscribe)
  from assms have 6: "inv_listeners (unsubscribe s w)"
    using True by (auto simp: unsubscribe_eq invariant_def inv_listeners_def list_all_iff nth_list_update)
  from assms have 7: "inv_cleanups (unsubscribe s w)"
    using True by (auto simp: unsubscribe_eq invariant_def inv_cleanups_def nth_list_update)
  from 1 2 3 4 5 6 7 show ?thesis by (simp add: invariant_def)
qed


lemma flush_same:
  "frame_callbacks (flush s w) = frame_callbacks w"
  "body_listeners (flush s w) = body_listeners w"
  "observerCallbacks (flush s w) = observerCallbacks w"
  "sharedObserver (flush s w) = sharedObserver w"
  "observers_created (flush s w) = observers_created w"
  "records (flush s w) = records w"
  "next_handle (flush s w) = next_handle w"
  "document (flush s w) = document w"
  "length (sessions (flush s w)) = length (sessions w)"
  "s_manifest (sessions (flush s w) ! s') = s_manifest (sessions w ! s')"
  "cleanups (sessions (flush s w) ! s') = cleanups (sessions w ! s')"
  by (simp_all add: flush_def Let_def set_pending_def nth_list_update split: sum.splits)

lemma flush_pending:
  "s' < length (sessions w) \<Longrightarrow>
   pending (sessions (flush s w) ! s') = (if s' = s then None else pending (sessions w ! s'))"
  by (simp add: flush_def Let_def set_pending_def nth_list_update split: sum.splits)

lemma flush_log:
  "log (flush s w) =
     log w @ (if s < length (sessions w)
              then [flush_effect (document w) (s_manifest (sessions w ! s)) s] else [])"
  by (simp add: flush_def Let_def set_pending_def flush_effect_def split: sum.splits)

lemma flushes_same:
  "frame_callbacks (fold (\<lambda>(h, s). flush s) q w) = frame_callbacks w"
  "body_listeners (fold (\<lambda>(h, s). flush s) q w) = body_listeners w"
  "observerCallbacks (fold (\<lambda>(h, s). flush s) q w) = observerCallbacks w"
  "sharedObserver (fold (\<lambda>(h, s). flush s) q w) = sharedObserver w"
  "observers_created (fold (\<lambda>(h, s). flush s) q w) = observers_created w"
  "records (fold (\<lambda>(h, s). flush s) q w) = records w"
  "next_handle (fold (\<lambda>(h, s). flush s) q w) = next_handle w"
  "document (fold (\<lambda>(h, s). flush s) q w) = document w"
  "length (sessions (fold (\<lambda>(h, s). flush s) q w)) = length (sessions w)"
  "s_manifest (sessions (fold (\<lambda>(h, s). flush s) q w) ! s') = s_manifest (sessions w ! s')"
  "cleanups (sessions (fold (\<lambda>(h, s). flush s) q w) ! s') = cleanups (sessions w ! s')"
  by (induction q arbitrary: w; simp add: flush_same split: prod.splits)+

lemma flushes_pending:
  "s' < length (sessions w) \<Longrightarrow>
   pending (sessions (fold (\<lambda>(h, s). flush s) q w) ! s') =
     (if s' \<in> snd ` set q then None else pending (sessions w ! s'))"
proof (induction q arbitrary: w)
  case Nil
  then show ?case by simp
next
  case (Cons a q)
  obtain h s where a: "a = (h, s)" by (cases a)
  from Cons.prems have "s' < length (sessions (flush s w))" by (simp add: flush_same)
  from Cons.IH[OF this] Cons.prems show ?case
    by (simp add: a flush_pending)
qed

lemma flushes_log:
  "log (fold (\<lambda>(h, s). flush s) q w) =
     log w @ map (\<lambda>(h, s). flush_effect (document w) (s_manifest (sessions w ! s)) s)
               (filter (\<lambda>(h, s). s < length (sessions w)) q)"
proof (induction q arbitrary: w)
  case Nil
  then show ?case by simp
next
  case (Cons a q)
  obtain h s where a: "a = (h, s)" by (cases a)
  show ?case by (simp add: a Cons.IH flush_same flush_log)
qed

lemma delivered_flush_effect: "delivered_at_body (flush_effect d m s)"
  by (simp add: flush_effect_def split: sum.splits)

lemma invariant_frame:
  assumes "invariant w"
  shows "invariant (frame w)"
proof -
  let ?v = "w\<lparr>frame_callbacks := []\<rparr>"
  have 1: "inv_observer (frame w)"
    using assms by (simp add: frame_def invariant_def inv_observer_def flushes_same)
  have 2: "inv_subscribers (frame w)"
    using assms by (simp add: frame_def invariant_def inv_subscribers_def flushes_same)
  have 3: "inv_records (frame w)"
    using assms
    by (auto simp: frame_def invariant_def inv_records_def flushes_same flushes_log
          list_all_iff delivered_flush_effect)
  have 4: "inv_frames (frame w)"
    using assms by (simp add: frame_def invariant_def inv_frames_def flushes_same)
  have 5: "inv_pending (frame w)"
    unfolding inv_pending_def
  proof (intro allI impI)
    fix s assume s: "s < length (sessions (frame w))"
      and t: "truthy_handle (pending (sessions (frame w) ! s))"
    from s have s0: "s < length (sessions ?v)" by (simp add: frame_def flushes_same)
    from t have "s \<notin> snd ` set (frame_callbacks w)"
      and t0: "truthy_handle (pending (sessions w ! s))"
      using flushes_pending[OF s0, of "frame_callbacks w"]
      by (auto simp: frame_def split: if_splits)
    moreover from assms s0 t0 have "(the (pending (sessions w ! s)), s) \<in> set (frame_callbacks w)"
      by (simp add: invariant_def inv_pending_def)
    ultimately have False by force
    then show "(the (pending (sessions (frame w) ! s)), s) \<in> set (frame_callbacks (frame w))" ..
  qed
  have 6: "inv_listeners (frame w)"
    using assms by (simp add: frame_def invariant_def inv_listeners_def flushes_same)
  have 7: "inv_cleanups (frame w)"
    using assms by (simp add: frame_def invariant_def inv_cleanups_def flushes_same)
  from 1 2 3 4 5 6 7 show ?thesis by (simp add: invariant_def)
qed

lemma invariant_step: "invariant w \<Longrightarrow> invariant (step e w)"
  by (cases e)
     (simp_all add: invariant_observe invariant_unsubscribe invariant_on invariant_off
        invariant_dispatchEvent invariant_SetDocument invariant_queue_records
        invariant_deliver invariant_frame)

lemma invariant_run: "invariant w \<Longrightarrow> invariant (run evs w)"
  unfolding run_def by (induction evs arbitrary: w) (simp_all add: invariant_step)

lemma invariant_reachable: "invariant (run evs (initial d))"
  by (rule invariant_run) (rule invariant_initial)

section \<open>The shared observer: one instance, which subscribers a batch reaches\<close>

lemma run_Nil: "run [] w = w"
  by (simp add: run_def)

lemma run_Cons: "run (e # evs) w = run evs (step e w)"
  by (simp add: run_def)

lemma run_append: "run (evs @ evs') w = run evs' (run evs w)"
  by (simp add: run_def)

lemma log_scheduleCallback: "log (scheduleCallback s w) = log w"
  by (simp add: scheduleCallback_eq)

lemma log_mutationHandler: "log (mutationHandler s b w) = log w"
  by (simp add: mutationHandler_def log_scheduleCallback)

lemma log_invoke: "log (invoke b sub w) = log w @ invoke_effects b sub"
  by (cases sub)
     (simp_all add: invoke_def invoke_effects_def Let_def log_mutationHandler
        split: option.splits)

lemma log_fold_invoke:
  "log (fold (invoke b) subs w) = log w @ concat (map (invoke_effects b) subs)"
  by (induction subs arbitrary: w) (simp_all add: log_invoke)

lemma log_deliver:
  "records w \<noteq> [] \<Longrightarrow>
   log (deliver w) =
     log w @ concat (map (invoke_effects (records w))
                       (reached (records w) (observerCallbacks w)))"
  by (simp add: deliver_fold log_fold_invoke)

lemma invoke_effects_returns:
  "list_all (\<lambda>sub. \<not> throws b sub) subs \<Longrightarrow>
   concat (map (invoke_effects b) subs) = map (\<lambda>sub. Invoked sub b) subs"
  by (induction subs) (simp_all add: invoke_effects_def throws_def)

lemma count_list_distinct:
  "distinct xs \<Longrightarrow> count_list xs x = (if x \<in> set xs then 1 else 0)"
  by (induction xs) auto

lemma count_list_invoke_effects:
  "count_list (concat (map (invoke_effects b) subs)) (Invoked sub b) = count_list subs sub"
  by (induction subs) (auto simp: invoke_effects_def split: option.splits)

lemma raw_session_eq:
  "raw_session =
     text_session\<lparr>records := body_changed, observerCallbacks := [Handler 0, Raw returning],
                  onCallbacks := [returning]\<rparr>"
  by (simp add: raw_session_def run_Cons run_Nil text_session_def[symmetric])
     (simp add: text_session_eq on_def ensureObserver_def set_add_def queue_records_def
        body_observer_def interested_def document_body_def body_changed_def)

lemma throwing_session_eq:
  "throwing_session =
     \<lparr>document = page, sharedObserver = Some body_observer, observers_created = 1,
      records = body_changed, observerCallbacks = [Raw throwing, Raw returning],
      onCallbacks = [throwing, returning], body_listeners = [], frame_callbacks = [],
      next_handle = 1, sessions = [], log = []\<rparr>"
  by (simp add: throwing_session_def run_Cons run_Nil)
     (simp add: initial_def on_def ensureObserver_def set_add_def queue_records_def
        body_observer_def interested_def document_body_def body_changed_def
        throwing_def returning_def)

text \<open>
  C6, as the code has it. In every state reached from the page as loaded, by any calls of
  \<open>observe\<close>, \<open>on\<close> and the unsubscribe functions and any activity of the host, at most
  one \<open>MutationObserver\<close> has been constructed. Once \<open>sharedObserver\<close> is set,
  \<open>ensureObserver\<close> changes nothing. The subscribers in \<open>observerCallbacks\<close> are distinct, and
  when the host delivers a batch they are called in the order of their insertion, with
  nothing around the call to catch an error: the subscriber at a position is called with
  the batch once if none of those before it throws on the batch, and not at all if one
  of them does. If no subscriber throws, each one is called exactly once.
\<close>

theorem one_shared_observer:
  assumes "w = run evs (initial d)"
  shows "observers_created w \<le> 1 \<and>
         (sharedObserver w \<noteq> None \<longrightarrow> ensureObserver w = w) \<and>
         distinct (observerCallbacks w) \<and>
         (records w \<noteq> [] \<longrightarrow>
            log (deliver w) =
              log w @ concat (map (invoke_effects (records w))
                                (reached (records w) (observerCallbacks w))) \<and>
            (\<forall>i < length (observerCallbacks w).
               count_list (drop (length (log w)) (log (deliver w)))
                 (Invoked (observerCallbacks w ! i) (records w)) =
               (if \<forall>j < i. \<not> throws (records w) (observerCallbacks w ! j) then 1 else 0)) \<and>
            (list_all (\<lambda>sub. \<not> throws (records w) sub) (observerCallbacks w) \<longrightarrow>
               log (deliver w) =
                 log w @ map (\<lambda>sub. Invoked sub (records w)) (observerCallbacks w)))"
proof -
  let ?b = "records w" and ?subs = "observerCallbacks w"
  from assms have i: "invariant w" by (simp add: invariant_reachable)
  then have 1: "observers_created w \<le> 1" by (auto simp: invariant_def inv_observer_def)
  have 2: "sharedObserver w \<noteq> None \<longrightarrow> ensureObserver w = w"
    by (simp add: ensureObserver_def)
  from i have d: "distinct ?subs"
    by (simp add: invariant_def inv_subscribers_def)
  have 3: "count_list (concat (map (invoke_effects ?b) (reached ?b ?subs)))
             (Invoked (?subs ! i) ?b) =
           (if \<forall>j < i. \<not> throws ?b (?subs ! j) then 1 else 0)"
    if "i < length ?subs" for i
    using reached_nth[OF d that, of ?b] distinct_reached[OF d, of ?b]
    by (simp add: count_list_invoke_effects count_list_distinct)
  have 4: "concat (map (invoke_effects ?b) (reached ?b ?subs)) =
           map (\<lambda>sub. Invoked sub ?b) ?subs"
    if "list_all (\<lambda>sub. \<not> throws ?b sub) ?subs"
    using that by (simp add: reached_all invoke_effects_returns)
  from 1 2 d 3 4 show ?thesis by (simp add: log_deliver)
qed

theorem one_shared_observer_witness:
  "observers_created raw_session \<le> 1 \<and>
   sharedObserver raw_session \<noteq> None \<and> ensureObserver raw_session = raw_session \<and>
   records raw_session \<noteq> [] \<and>
   observerCallbacks raw_session = [Handler 0, Raw returning] \<and>
   list_all (\<lambda>sub. \<not> throws (records raw_session) sub) (observerCallbacks raw_session) \<and>
   log (deliver raw_session) =
     log raw_session @
       [Invoked (Handler 0) (records raw_session),
        Invoked (Raw returning) (records raw_session)] \<and>
   count_list (drop (length (log raw_session)) (log (deliver raw_session)))
     (Invoked (Handler 0) (records raw_session)) = 1 \<and>
   count_list (drop (length (log raw_session)) (log (deliver raw_session)))
     (Invoked (Raw returning) (records raw_session)) = 1"
proof -
  have s: "sharedObserver raw_session \<noteq> None" and r: "records raw_session \<noteq> []"
    and m: "observerCallbacks raw_session = [Handler 0, Raw returning]"
    by (simp_all add: raw_session_eq text_session_eq body_changed_def)
  have t: "list_all (\<lambda>sub. \<not> throws (records raw_session) sub) (observerCallbacks raw_session)"
    by (simp add: m throws_def returning_def)
  note th = one_shared_observer[OF raw_session_def]
  from th s have 1: "observers_created raw_session \<le> 1"
    and 2: "ensureObserver raw_session = raw_session" by blast+
  from th r t have "log (deliver raw_session) =
      log raw_session @
        map (\<lambda>sub. Invoked sub (records raw_session)) (observerCallbacks raw_session)"
    by blast
  then have 3: "log (deliver raw_session) =
      log raw_session @
        [Invoked (Handler 0) (records raw_session),
         Invoked (Raw returning) (records raw_session)]"
    by (simp add: m)
  from th r have c: "\<forall>i < length (observerCallbacks raw_session).
      count_list (drop (length (log raw_session)) (log (deliver raw_session)))
        (Invoked (observerCallbacks raw_session ! i) (records raw_session)) =
      (if \<forall>j < i. \<not> throws (records raw_session) (observerCallbacks raw_session ! j)
       then 1 else 0)"
    by blast
  have 4: "count_list (drop (length (log raw_session)) (log (deliver raw_session)))
      (Invoked (Handler 0) (records raw_session)) = 1"
    using c[rule_format, of 0] by (simp add: m)
  have 5: "count_list (drop (length (log raw_session)) (log (deliver raw_session)))
      (Invoked (Raw returning) (records raw_session)) = 1"
    using c[rule_format, of "Suc 0"] by (simp add: m throws_def)
  from 1 s 2 r m t 3 4 5 show ?thesis by blast
qed

text \<open>
  The claim as it is written fails when a subscriber throws: the first of two callbacks
  given to \<open>on\<close> throws on the batch, the error goes to the host, and the second, which is
  registered, is not called with the batch.
\<close>

theorem subscriber_after_throw_counterexample:
  "observerCallbacks throwing_session = [Raw throwing, Raw returning] \<and>
   records throwing_session = body_changed \<and> body_changed \<noteq> [] \<and>
   log (deliver throwing_session) =
     log throwing_session @ [Invoked (Raw throwing) body_changed, Uncaught (Error ''boom'')] \<and>
   count_list (drop (length (log throwing_session)) (log (deliver throwing_session)))
     (Invoked (Raw returning) body_changed) = 0"
proof -
  have d: "log (deliver throwing_session) =
      [Invoked (Raw throwing) body_changed, Uncaught (Error ''boom'')]"
    by (simp add: throwing_session_eq deliver_def notify_def throws_def)
       (simp add: invoke_def throwing_def body_changed_def)
  have l: "log throwing_session = []" by (simp add: throwing_session_eq)
  have "Raw throwing \<noteq> Raw returning" by (simp add: throwing_def returning_def)
  then have "count_list [Invoked (Raw throwing) body_changed, Uncaught (Error ''boom'')]
     (Invoked (Raw returning) body_changed) = 0" by simp
  with d l show ?thesis by (simp add: throwing_session_eq body_changed_def)
qed

section \<open>The shared observer: what it delivers\<close>

text \<open>
  C9. The shared observer observes \<open>document.body\<close> with \<open>subtree: false\<close>. In every state
  reached from the page as loaded, the observer, if there is one, is this one; every
  record in its queue and every record of every batch a subscriber was ever called with
  has \<open>document.body\<close> as its target; and mutations none of which has \<open>document.body\<close> as
  target leave the state as it is: no record is queued, so none is delivered and no flush
  is scheduled.
\<close>

theorem only_body_mutations_delivered:
  assumes "w = run evs (initial d)"
  shows "(\<forall>ob. sharedObserver w = Some ob \<longrightarrow> obs_node ob = document_body \<and> \<not> subtree ob) \<and>
         (\<forall>r \<in> set (records w). target r = document_body) \<and>
         (\<forall>sub b. Invoked sub b \<in> set (log w) \<longrightarrow> (\<forall>r \<in> set b. target r = document_body)) \<and>
         ((\<forall>r \<in> set rs. target r \<noteq> document_body) \<longrightarrow> step (Mutate rs) w = w)"
proof -
  from assms have i: "invariant w" by (simp add: invariant_reachable)
  then have o: "sharedObserver w = None \<or> sharedObserver w = Some body_observer"
    by (auto simp: invariant_def inv_observer_def)
  then have 1: "\<forall>ob. sharedObserver w = Some ob \<longrightarrow> obs_node ob = document_body \<and> \<not> subtree ob"
    by (auto simp: body_observer_def)
  from i have 2: "\<forall>r \<in> set (records w). target r = document_body"
    by (simp add: invariant_def inv_records_def at_body_def list_all_iff)
  have 3: "\<forall>r \<in> set b. target r = document_body" if "Invoked sub b \<in> set (log w)" for sub b
  proof -
    from i that have "delivered_at_body (Invoked sub b)"
      unfolding invariant_def inv_records_def list_all_iff by blast
    then show ?thesis by (simp add: at_body_def list_all_iff)
  qed
  have 4: "step (Mutate rs) w = w" if "\<forall>r \<in> set rs. target r \<noteq> document_body"
  proof -
    from that have "filter (interested body_observer) rs = []"
      by (auto simp: filter_empty_conv dest: interested_body)
    with o show ?thesis by (auto simp: queue_records_def)
  qed
  from 1 2 3 4 show ?thesis by blast
qed

theorem only_body_mutations_delivered_witness:
  "sharedObserver raw_session = Some body_observer \<and>
   obs_node body_observer = document_body \<and> \<not> subtree body_observer \<and>
   records raw_session = [\<lparr>mtype = Attributes, target = [1]\<rparr>] \<and>
   target \<lparr>mtype = Attributes, target = [1]\<rparr> = document_body \<and>
   list_all (\<lambda>r. target r \<noteq> document_body) label_changed \<and>
   step (Mutate label_changed) raw_session = raw_session"
proof -
  have s: "sharedObserver raw_session = Some body_observer"
    and r: "records raw_session = [\<lparr>mtype = Attributes, target = [1]\<rparr>]"
    and l: "\<forall>r \<in> set label_changed. target r \<noteq> document_body"
    by (simp_all add: raw_session_eq text_session_eq body_changed_def label_changed_def
          document_body_def)
  from r have "\<lparr>mtype = Attributes, target = [1]\<rparr> \<in> set (records raw_session)" by simp
  with only_body_mutations_delivered[OF raw_session_def, of label_changed] s r l
  show ?thesis unfolding list_all_iff by blast
qed

section \<open>unsubscribe: no callback afterwards\<close>

lemma passes_refl: "quiet s w \<Longrightarrow> passes s w w"
  by (simp add: passes_def)

lemma passes_trans: "passes s w w' \<Longrightarrow> passes s w' w'' \<Longrightarrow> passes s w w''"
  by (simp add: passes_def)

lemma passes_fold:
  assumes "\<And>x w. x \<in> set xs \<Longrightarrow> quiet s w \<Longrightarrow> passes s w (f x w)"
  shows "quiet s w \<Longrightarrow> passes s w (fold f xs w)"
  using assms
proof (induction xs arbitrary: w)
  case Nil
  then show ?case by (simp add: passes_refl)
next
  case (Cons x xs)
  from Cons.prems have 1: "passes s w (f x w)" by simp
  then have "quiet s (f x w)" by (simp add: passes_def)
  then have "passes s (f x w) (fold f xs (f x w))"
    by (rule Cons.IH) (simp add: Cons.prems(2))
  with 1 show ?case by (simp add: passes_trans)
qed

lemma passes_scheduleCallback: "s' \<noteq> s \<Longrightarrow> quiet s w \<Longrightarrow> passes s w (scheduleCallback s' w)"
  by (simp add: passes_def quiet_def callbacks_of_def scheduleCallback_eq)

lemma passes_log: "\<not> is_callback_of s e \<Longrightarrow> quiet s w \<Longrightarrow> passes s w (w\<lparr>log := log w @ [e]\<rparr>)"
  by (simp add: passes_def quiet_def callbacks_of_def)

lemma passes_logs:
  "list_all (\<lambda>e. \<not> is_callback_of s e) es \<Longrightarrow> quiet s w \<Longrightarrow>
   passes s w (w\<lparr>log := log w @ es\<rparr>)"
  by (simp add: passes_def quiet_def callbacks_of_def list_all_iff)

lemma passes_handler: "l_session l \<noteq> s \<Longrightarrow> quiet s w \<Longrightarrow> passes s w (handler l t w)"
  by (simp add: handler_def passes_scheduleCallback passes_log passes_refl)

lemma passes_dispatchEvent: "quiet s w \<Longrightarrow> passes s w (dispatchEvent ty t w)"
proof -
  assume q: "quiet s w"
  then have "\<forall>l \<in> set (filter (\<lambda>l. l_type l = ty) (body_listeners w)). l_session l \<noteq> s"
    by (simp add: quiet_def list_all_iff)
  then have "passes s w (fold (\<lambda>l. handler l t) (filter (\<lambda>l. l_type l = ty) (body_listeners w)) w)"
    using q by (intro passes_fold) (simp_all add: passes_handler)
  with q show ?thesis by (simp add: dispatchEvent_def passes_refl)
qed

lemma passes_mutationHandler: "s' \<noteq> s \<Longrightarrow> quiet s w \<Longrightarrow> passes s w (mutationHandler s' b w)"
  by (simp add: mutationHandler_def passes_scheduleCallback passes_refl)

lemma passes_invoke: "sub \<noteq> Handler s \<Longrightarrow> quiet s w \<Longrightarrow> passes s w (invoke b sub w)"
proof -
  assume n: "sub \<noteq> Handler s" and q: "quiet s w"
  let ?w = "w\<lparr>log := log w @ [Invoked sub b]\<rparr>"
  from q have 1: "passes s w ?w" by (simp add: passes_log)
  then have q': "quiet s ?w" by (simp add: passes_def)
  show ?thesis
  proof (cases sub)
    case (Handler s')
    with n have "s' \<noteq> s" by simp
    from passes_mutationHandler[OF this q'] 1 show ?thesis
      by (simp add: invoke_def Let_def Handler passes_trans)
  next
    case (Raw cb)
    with q show ?thesis by (simp add: invoke_Raw passes_logs invoke_effects_no_callback)
  qed
qed

lemma passes_deliver: "quiet s w \<Longrightarrow> passes s w (deliver w)"
proof -
  assume q: "quiet s w"
  let ?w = "w\<lparr>records := []\<rparr>"
  from q have 1: "passes s w ?w" by (simp add: passes_def quiet_def callbacks_of_def)
  then have q': "quiet s ?w" by (simp add: passes_def)
  from q have "\<forall>sub \<in> set (reached (records w) (observerCallbacks w)). sub \<noteq> Handler s"
    using reached_subset[of "records w" "observerCallbacks w"] by (auto simp: quiet_def)
  then have "passes s ?w (fold (invoke (records w)) (reached (records w) (observerCallbacks w)) ?w)"
    using q' by (intro passes_fold) (simp_all add: passes_invoke)
  with 1 q show ?thesis by (simp add: deliver_fold passes_refl passes_trans)
qed

lemma is_callback_of_flush_effect:
  "is_callback_of s (flush_effect d m s') = (s' = s \<and> (\<exists>st. collect d m = Inr st))"
  by (auto simp: flush_effect_def split: sum.splits)

lemma passes_frame: "quiet s w \<Longrightarrow> passes s w (frame w)"
proof -
  assume q: "quiet s w"
  have "filter (is_callback_of s)
          (map (\<lambda>(h, s'). flush_effect (document w) (s_manifest (sessions w ! s')) s')
             (filter (\<lambda>(h, s'). s' < length (sessions w)) (frame_callbacks w))) = []"
    using q by (auto simp: quiet_def list_all_iff filter_empty_conv is_callback_of_flush_effect)
  with q show ?thesis
    by (simp add: passes_def quiet_def callbacks_of_def frame_def flushes_same flushes_log)
qed

lemma passes_observe: "quiet s w \<Longrightarrow> passes s w (snd (observe m w))"
  by (auto simp: passes_def quiet_def callbacks_of_def observe_eq ensureObserver_def
        set_add_def list_all_iff dest: new_listeners_session)

lemma passes_unsubscribe: "quiet s w \<Longrightarrow> passes s w (unsubscribe s' w)"
proof (cases "s' < length (sessions w)")
  case False
  moreover assume "quiet s w"
  ultimately show ?thesis by (simp add: unsubscribe_def passes_refl)
next
  case True
  moreover assume "quiet s w"
  ultimately show ?thesis
    by (auto simp: passes_def quiet_def callbacks_of_def unsubscribe_eq list_all_iff)
qed

lemma passes_step: "quiet s w \<Longrightarrow> passes s w (step e w)"
proof (cases e)
  case (On cb)
  moreover assume "quiet s w"
  ultimately show ?thesis
    by (auto simp: passes_def quiet_def callbacks_of_def on_def Let_def ensureObserver_def set_add_def)
next
  case (Off cb)
  moreover assume "quiet s w"
  ultimately show ?thesis
    by (auto simp: passes_def quiet_def callbacks_of_def off_def set_delete_def)
next
  case (SetDocument d)
  moreover assume "quiet s w"
  ultimately show ?thesis by (simp add: passes_def quiet_def callbacks_of_def)
next
  case (Mutate rs)
  moreover assume "quiet s w"
  ultimately show ?thesis
    by (auto simp: passes_def quiet_def callbacks_of_def queue_records_def split: option.splits)
qed (simp_all add: passes_observe passes_unsubscribe passes_dispatchEvent passes_deliver passes_frame)

lemma passes_run: "quiet s w \<Longrightarrow> passes s w (run evs w)"
proof (induction evs arbitrary: w)
  case Nil
  then show ?case by (simp add: run_Nil passes_refl)
next
  case (Cons e evs)
  from Cons.prems have 1: "passes s w (step e w)" by (rule passes_step)
  then have "quiet s (step e w)" by (simp add: passes_def)
  from Cons.IH[OF this] 1 show ?case by (simp add: run_Cons passes_trans)
qed

lemma quiet_unsubscribe:
  assumes "invariant w" "s < length (sessions w)"
  shows "quiet s (unsubscribe s w)"
proof -
  have f: "(h', s) \<in> set (frame_callbacks w) \<Longrightarrow> pending (sessions w ! s) = Some h' \<and> h' \<noteq> 0" for h'
    using assms(1) by (auto simp: invariant_def inv_frames_def list_all_iff)
  have 1: "list_all (\<lambda>(h, s'). s' \<noteq> s) (frame_callbacks (unsubscribe s w))"
    using assms(2) f by (auto simp: unsubscribe_eq list_all_iff)
  have l: "l \<in> set (body_listeners w) \<Longrightarrow> l_session l = s \<Longrightarrow> removes (cleanups (sessions w ! s)) l" for l
    using assms(1) by (auto simp: invariant_def inv_listeners_def list_all_iff)
  have 2: "list_all (\<lambda>l. l_session l \<noteq> s) (body_listeners (unsubscribe s w))"
    using assms(2) l by (auto simp: unsubscribe_eq list_all_iff)
  have "DeleteSubscriber (Handler s) \<in> set (cleanups (sessions w ! s))"
    using assms by (simp add: invariant_def inv_cleanups_def)
  then have 3: "Handler s \<notin> set (observerCallbacks (unsubscribe s w))"
    using assms(2) by (simp add: unsubscribe_eq)
  from 1 2 3 assms(2) show ?thesis by (simp add: quiet_def sessions_unsubscribe)
qed

lemma body_session_eq:
  "body_session =
     \<lparr>document = page, sharedObserver = Some body_observer, observers_created = 1,
      records = [], observerCallbacks = [Handler 0], onCallbacks = [],
      body_listeners =
        [\<lparr>l_type = ''input'', l_session = 0, l_entry = 0, l_selector = Some ''#a''\<rparr>],
      frame_callbacks = [], next_handle = 1,
      sessions = [\<lparr>s_manifest = body_manifest, pending = None,
                   cleanups = [RemoveListener ''input'' 0 0, DeleteSubscriber (Handler 0)]\<rparr>],
      log = []\<rparr>"
  by (simp add: body_session_def run_Cons run_Nil observe_def Let_def initial_def
        ensureObserver_def set_add_def body_observer_def body_manifest_def entry_def
        getWatchEvent_def removal_def)

lemma input_at_a:
  "is_element page [0, 1]" "matches page [0, 1] ''#a''"
  "is_element page_edited [0, 1]" "matches page_edited [0, 1] ''#a''"
  "descendant_of [0, 1] document_body"
  by (simp_all add: is_element_def matches_def node_at_def page_def page_edited_def elem_def
        descendant_of_def document_body_def)

lemma pending_session_eq:
  "pending_session =
     body_session\<lparr>records := body_changed, frame_callbacks := [(1, 0)], next_handle := 2,
       sessions := [\<lparr>s_manifest = body_manifest, pending = Some 1,
                     cleanups = [RemoveListener ''input'' 0 0,
                                 DeleteSubscriber (Handler 0)]\<rparr>]\<rparr>"
  by (simp add: pending_session_def run_Cons run_Nil
        body_session_def[unfolded run_Cons run_Nil step.simps, symmetric])
     (simp add: body_session_eq dispatchEvent_def handler_def
        input_at_a[unfolded One_nat_def] descendant_of_def scheduleCallback_eq
        queue_records_def body_observer_def interested_def document_body_def
        body_changed_def)

text \<open>
  C4. For a session of a state reached from the page as loaded: once its unsubscribe
  function has returned, the host holds no frame callback of the session, no listener of
  the session is on \<open>document.body\<close>, its \<open>mutationHandler\<close> is not in \<open>observerCallbacks\<close>, and
  whatever happens afterwards (records queued before the call being delivered, events,
  frames, other sessions), the session's callback is not called again.
\<close>

theorem no_callback_after_unsubscribe:
  assumes "w = run evs (initial d)" and "s < length (sessions w)"
  shows "list_all (\<lambda>(h, s'). s' \<noteq> s) (frame_callbacks (unsubscribe s w)) \<and>
         list_all (\<lambda>l. l_session l \<noteq> s) (body_listeners (unsubscribe s w)) \<and>
         Handler s \<notin> set (observerCallbacks (unsubscribe s w)) \<and>
         callbacks_of s (run evs' (unsubscribe s w)) = callbacks_of s w"
proof -
  from assms(1) have "invariant w" by (simp add: invariant_reachable)
  from quiet_unsubscribe[OF this assms(2)] have q: "quiet s (unsubscribe s w)" .
  from passes_run[OF q, of evs']
  have "callbacks_of s (run evs' (unsubscribe s w)) = callbacks_of s (unsubscribe s w)"
    by (simp add: passes_def)
  with q show ?thesis by (simp add: quiet_def callbacks_of_def log_unsubscribe)
qed

theorem no_callback_after_unsubscribe_witness:
  "0 < length (sessions pending_session) \<and>
   frame_callbacks pending_session = [(1, 0)] \<and> records pending_session = body_changed \<and>
   list_all (\<lambda>(h, s'). s' \<noteq> 0) (frame_callbacks (unsubscribe 0 pending_session)) \<and>
   list_all (\<lambda>l. l_session l \<noteq> 0) (body_listeners (unsubscribe 0 pending_session)) \<and>
   Handler 0 \<notin> set (observerCallbacks (unsubscribe 0 pending_session)) \<and>
   callbacks_of 0
     (run [Deliver, DispatchEvent ''input'' [0, 1], Frame] (unsubscribe 0 pending_session)) =
     callbacks_of 0 pending_session"
proof -
  have l: "0 < length (sessions pending_session)"
    and f: "frame_callbacks pending_session = [(1, 0)]"
    and r: "records pending_session = body_changed"
    by (simp_all add: pending_session_eq body_session_eq)
  from no_callback_after_unsubscribe[OF pending_session_def l,
         of "[Deliver, DispatchEvent ''input'' [0, 1], Frame]"] l f r
  show ?thesis by blast
qed

section \<open>The coalescing window\<close>

lemma keeps_fold:
  "(\<And>x w. keeps s m c w \<Longrightarrow> keeps s m c (f x w)) \<Longrightarrow> keeps s m c w \<Longrightarrow> keeps s m c (fold f xs w)"
  by (induction xs arbitrary: w) simp_all

lemma armed_fold:
  "(\<And>x w. armed s w \<Longrightarrow> armed s (f x w)) \<Longrightarrow> armed s w \<Longrightarrow> armed s (fold f xs w)"
  by (induction xs arbitrary: w) simp_all

lemma keeps_scheduleCallback: "keeps s m c w \<Longrightarrow> keeps s m c (scheduleCallback s' w)"
  by (auto simp: keeps_def callbacks_of_def scheduleCallback_eq nth_list_update)

lemma armed_scheduleCallback: "armed s w \<Longrightarrow> armed s (scheduleCallback s' w)"
  by (auto simp: armed_def scheduleCallback_eq nth_list_update)

lemma scheduleCallback_arms:
  "0 < next_handle w \<Longrightarrow> s < length (sessions w) \<Longrightarrow> armed s (scheduleCallback s w)"
  by (auto simp: armed_def scheduleCallback_eq)

lemma keeps_log: "\<not> is_callback_of s e \<Longrightarrow> keeps s m c w \<Longrightarrow> keeps s m c (w\<lparr>log := log w @ [e]\<rparr>)"
  by (simp add: keeps_def callbacks_of_def)

lemma armed_log: "armed s w \<Longrightarrow> armed s (w\<lparr>log := log w @ [e]\<rparr>)"
  by (simp add: armed_def)

lemma keeps_logs:
  "list_all (\<lambda>e. \<not> is_callback_of s e) es \<Longrightarrow> keeps s m c w \<Longrightarrow>
   keeps s m c (w\<lparr>log := log w @ es\<rparr>)"
  by (simp add: keeps_def callbacks_of_def list_all_iff)

lemma armed_logs: "armed s w \<Longrightarrow> armed s (w\<lparr>log := log w @ es\<rparr>)"
  by (simp add: armed_def)

lemma keeps_handler: "keeps s m c w \<Longrightarrow> keeps s m c (handler l t w)"
  by (simp add: handler_def keeps_scheduleCallback keeps_log)

lemma armed_handler: "armed s w \<Longrightarrow> armed s (handler l t w)"
  by (simp add: handler_def armed_scheduleCallback armed_log)

lemma keeps_invoke: "keeps s m c w \<Longrightarrow> keeps s m c (invoke b sub w)"
proof (cases sub)
  case (Handler s')
  assume "keeps s m c w"
  with Handler show ?thesis
    by (simp add: invoke_Handler mutationHandler_def keeps_scheduleCallback keeps_log)
next
  case (Raw cb)
  assume "keeps s m c w"
  with Raw show ?thesis by (simp add: invoke_Raw keeps_logs invoke_effects_no_callback)
qed

lemma armed_invoke: "armed s w \<Longrightarrow> armed s (invoke b sub w)"
proof (cases sub)
  case (Handler s')
  assume "armed s w"
  with Handler show ?thesis
    by (simp add: invoke_Handler mutationHandler_def armed_scheduleCallback armed_log)
next
  case (Raw cb)
  assume "armed s w"
  with Raw show ?thesis by (simp add: invoke_Raw armed_logs)
qed

lemma keeps_deliver: "keeps s m c w \<Longrightarrow> keeps s m c (deliver w)"
proof -
  assume k: "keeps s m c w"
  then have "keeps s m c (w\<lparr>records := []\<rparr>)" by (simp add: keeps_def callbacks_of_def)
  then have "keeps s m c (fold (invoke (records w)) (reached (records w) (observerCallbacks w))
                           (w\<lparr>records := []\<rparr>))"
    by (rule keeps_fold[rotated]) (rule keeps_invoke)
  with k show ?thesis by (simp add: deliver_fold)
qed

lemma armed_deliver: "armed s w \<Longrightarrow> armed s (deliver w)"
proof -
  assume k: "armed s w"
  then have "armed s (w\<lparr>records := []\<rparr>)" by (simp add: armed_def)
  then have "armed s (fold (invoke (records w)) (reached (records w) (observerCallbacks w))
                        (w\<lparr>records := []\<rparr>))"
    by (rule armed_fold[rotated]) (rule armed_invoke)
  with k show ?thesis by (simp add: deliver_fold)
qed

lemma keeps_step: "keeps s m c w \<Longrightarrow> e \<noteq> Frame \<Longrightarrow> keeps s m c (step e w)"
proof (cases e)
  case (Observe m')
  moreover assume "keeps s m c w"
  ultimately show ?thesis
    by (auto simp: keeps_def callbacks_of_def observe_eq ensureObserver_def nth_append)
next
  case (Unsubscribe s')
  moreover assume "keeps s m c w"
  ultimately show ?thesis
    by (auto simp: keeps_def callbacks_of_def sessions_unsubscribe log_unsubscribe nth_list_update)
next
  case (On cb)
  moreover assume "keeps s m c w"
  ultimately show ?thesis
    by (auto simp: keeps_def callbacks_of_def on_def Let_def ensureObserver_def)
next
  case (Off cb)
  moreover assume "keeps s m c w"
  ultimately show ?thesis by (simp add: keeps_def callbacks_of_def off_def)
next
  case (DispatchEvent ty t)
  moreover assume "keeps s m c w"
  ultimately show ?thesis by (simp add: dispatchEvent_def keeps_fold keeps_handler)
next
  case (SetDocument d)
  moreover assume "keeps s m c w"
  ultimately show ?thesis by (simp add: keeps_def callbacks_of_def)
next
  case (Mutate rs)
  moreover assume "keeps s m c w"
  ultimately show ?thesis
    by (auto simp: keeps_def callbacks_of_def queue_records_def split: option.splits)
next
  case Deliver
  moreover assume "keeps s m c w"
  ultimately show ?thesis by (simp add: keeps_deliver)
next
  case Frame
  moreover assume "e \<noteq> Frame"
  ultimately show ?thesis by simp
qed

lemma armed_step:
  "armed s w \<Longrightarrow> e \<noteq> Frame \<Longrightarrow> e \<noteq> Unsubscribe s \<Longrightarrow> armed s (step e w)"
proof (cases e)
  case (Observe m')
  moreover assume "armed s w"
  ultimately show ?thesis
    by (auto simp: armed_def observe_eq ensureObserver_def nth_append)
next
  case (Unsubscribe s')
  moreover assume "armed s w" "e \<noteq> Unsubscribe s"
  ultimately show ?thesis
    by (auto simp: armed_def sessions_unsubscribe nth_list_update)
next
  case (On cb)
  moreover assume "armed s w"
  ultimately show ?thesis
    by (auto simp: armed_def on_def Let_def ensureObserver_def)
next
  case (Off cb)
  moreover assume "armed s w"
  ultimately show ?thesis by (simp add: armed_def off_def)
next
  case (DispatchEvent ty t)
  moreover assume "armed s w"
  ultimately show ?thesis by (simp add: dispatchEvent_def armed_fold armed_handler)
next
  case (SetDocument d)
  moreover assume "armed s w"
  ultimately show ?thesis by (simp add: armed_def)
next
  case (Mutate rs)
  moreover assume "armed s w"
  ultimately show ?thesis
    by (auto simp: armed_def queue_records_def split: option.splits)
next
  case Deliver
  moreover assume "armed s w"
  ultimately show ?thesis by (simp add: armed_deliver)
next
  case Frame
  moreover assume "e \<noteq> Frame"
  ultimately show ?thesis by simp
qed

lemma invariant_act: "invariant w \<Longrightarrow> invariant (act s a w)"
  by (cases a) (simp_all add: invariant_scheduleCallback invariant_step)

lemma window:
  assumes "Host Frame \<notin> set acts" "Host (Unsubscribe s) \<notin> set acts"
  shows "invariant w \<Longrightarrow> keeps s m c w \<Longrightarrow> armed s w \<or> Trigger \<in> set acts \<Longrightarrow>
         invariant (fold (act s) acts w) \<and> keeps s m c (fold (act s) acts w) \<and>
         armed s (fold (act s) acts w)"
  using assms
proof (induction acts arbitrary: w)
  case Nil
  then show ?case by simp
next
  case (Cons a acts)
  from Cons.prems(1) have i: "invariant (act s a w)" by (rule invariant_act)
  have k: "keeps s m c (act s a w)"
  proof (cases a)
    case Trigger
    with Cons.prems(2) show ?thesis by (simp add: keeps_scheduleCallback)
  next
    case (Host e)
    with Cons.prems(4) have "e \<noteq> Frame" by auto
    with Cons.prems(2) Host show ?thesis by (simp add: keeps_step)
  qed
  have a: "armed s (act s a w) \<or> Trigger \<in> set acts"
  proof (cases a)
    case Trigger
    from Cons.prems(1) have "0 < next_handle w" by (simp add: invariant_def inv_frames_def)
    moreover from Cons.prems(2) have "s < length (sessions w)" by (simp add: keeps_def)
    ultimately show ?thesis by (simp add: Trigger scheduleCallback_arms)
  next
    case (Host e)
    with Cons.prems(4,5) have e: "e \<noteq> Frame" "e \<noteq> Unsubscribe s" by auto
    show ?thesis
    proof (cases "armed s w")
      case True
      with e Host show ?thesis by (simp add: armed_step)
    next
      case False
      with Cons.prems(3) Host show ?thesis by simp
    qed
  qed
  from Cons.prems(4,5) have "Host Frame \<notin> set acts" "Host (Unsubscribe s) \<notin> set acts" by simp_all
  from Cons.IH[OF i k a this] show ?case by simp
qed

lemma filter_eq_single: "distinct xs \<Longrightarrow> x \<in> set xs \<Longrightarrow> filter (\<lambda>y. y = x) xs = [x]"
  by (induction xs) (auto simp: filter_empty_conv)

lemma filter_single:
  assumes "distinct xs" "x \<in> set xs" "\<And>y. y \<in> set xs \<Longrightarrow> P y \<Longrightarrow> y = x" "P x"
  shows "filter P xs = [x]"
proof -
  have "filter P xs = filter (\<lambda>y. y = x) xs"
    by (rule filter_cong) (use assms(3,4) in blast)+
  with filter_eq_single[OF assms(1,2)] show ?thesis by simp
qed

lemma own_frame_callback:
  assumes "invariant w" "armed s w"
  shows "filter (\<lambda>(h, s'). s' = s) (frame_callbacks w) = [(the (pending (sessions w ! s)), s)]"
proof (rule filter_single)
  from assms(1) show "distinct (frame_callbacks w)"
    by (simp add: invariant_def inv_frames_def distinct_map)
  from assms show "(the (pending (sessions w ! s)), s) \<in> set (frame_callbacks w)"
    by (simp add: invariant_def inv_pending_def armed_def)
  show "y = (the (pending (sessions w ! s)), s)"
    if "y \<in> set (frame_callbacks w)" "case y of (h, s') \<Rightarrow> s' = s" for y
    using that assms(1) by (auto simp: invariant_def inv_frames_def list_all_iff)
  show "case (the (pending (sessions w ! s)), s) of (h, s') \<Rightarrow> s' = s" by simp
qed

lemma callbacks_of_frame:
  assumes "invariant w" "armed s w"
  shows "callbacks_of s (frame w) =
           callbacks_of s w @
             filter (is_callback_of s) [flush_effect (document w) (s_manifest (sessions w ! s)) s]"
proof -
  let ?f = "\<lambda>(h, s'). flush_effect (document w) (s_manifest (sessions w ! s')) s'"
  let ?q = "frame_callbacks w"
  from assms(1) have v: "filter (\<lambda>(h, s'). s' < length (sessions w)) ?q = ?q"
    by (auto simp: invariant_def inv_frames_def list_all_iff filter_id_conv)
  have "filter (is_callback_of s) (map ?f ?q)
      = map ?f (filter (\<lambda>x. is_callback_of s (?f x)) ?q)"
    by (simp add: filter_map comp_def)
  also have "filter (\<lambda>x. is_callback_of s (?f x)) ?q
      = filter (\<lambda>x. is_callback_of s (?f x)) (filter (\<lambda>(h, s'). s' = s) ?q)"
    unfolding filter_filter
    by (rule filter_cong) (auto simp: is_callback_of_flush_effect)
  also have "\<dots> = filter (\<lambda>x. is_callback_of s (?f x)) [(the (pending (sessions w ! s)), s)]"
    by (simp only: own_frame_callback[OF assms])
  also have "map ?f \<dots> = filter (is_callback_of s)
                     [flush_effect (document w) (s_manifest (sessions w ! s)) s]"
    by simp
  finally have X: "filter (is_callback_of s) (map ?f ?q) = filter (is_callback_of s)
                     [flush_effect (document w) (s_manifest (sessions w ! s)) s]" .
  show ?thesis
    unfolding callbacks_of_def frame_def flushes_log by (simp add: v X)
qed

lemma log_frame:
  assumes "invariant w"
  shows "log (frame w) =
           log w @ map (\<lambda>(h, s). flush_effect (document w) (s_manifest (sessions w ! s)) s)
                     (frame_callbacks w)"
proof -
  from assms have "filter (\<lambda>(h, s'). s' < length (sessions w)) (frame_callbacks w) =
      frame_callbacks w"
    by (auto simp: invariant_def inv_frames_def list_all_iff filter_id_conv)
  then show ?thesis unfolding frame_def flushes_log by simp
qed

lemma own_effect_of_frame:
  assumes "invariant w" "armed s w"
  shows "flush_effect (document w) (s_manifest (sessions w ! s)) s
           \<in> set (drop (length (log w)) (log (frame w)))"
proof -
  let ?f = "\<lambda>(h, s). flush_effect (document w) (s_manifest (sessions w ! s)) s"
  from assms have "(the (pending (sessions w ! s)), s) \<in> set (frame_callbacks w)"
    by (simp add: invariant_def inv_pending_def armed_def)
  then have "?f (the (pending (sessions w ! s)), s) \<in> ?f ` set (frame_callbacks w)"
    by (rule imageI)
  then show ?thesis by (simp add: log_frame[OF assms(1)])
qed

lemma window_flush:
  assumes "invariant w" and "s < length (sessions w)"
    and "Trigger \<in> set acts" and "Host Frame \<notin> set acts"
    and "Host (Unsubscribe s) \<notin> set acts"
    and "w' = fold (act s) acts w"
  shows "filter (\<lambda>(h, s'). s' = s) (frame_callbacks w') =
           [(the (pending (sessions w' ! s)), s)] \<and>
         callbacks_of s w' = callbacks_of s w \<and>
         (\<forall>st. collect (document w') (s_manifest (sessions w ! s)) = Inr st \<longrightarrow>
            callbacks_of s (frame w') = callbacks_of s w @ [Callback s st]) \<and>
         (\<forall>e. collect (document w') (s_manifest (sessions w ! s)) = Inl e \<longrightarrow>
            callbacks_of s (frame w') = callbacks_of s w \<and>
            Uncaught e \<in> set (drop (length (log w')) (log (frame w'))))"
proof -
  let ?m = "s_manifest (sessions w ! s)"
  from assms(2) have k: "keeps s ?m (callbacks_of s w) w"
    by (simp add: keeps_def)
  from window[OF assms(4,5) assms(1) k] assms(3,6)
  have i': "invariant w'" and k': "keeps s ?m (callbacks_of s w) w'"
    and a': "armed s w'" by simp_all
  from k' have m: "s_manifest (sessions w' ! s) = ?m"
    and c: "callbacks_of s w' = callbacks_of s w" by (simp_all add: keeps_def)
  have R: "callbacks_of s (frame w') = callbacks_of s w @ [Callback s st]"
    if "collect (document w') ?m = Inr st" for st
  proof -
    have fe: "flush_effect (document w') (s_manifest (sessions w' ! s)) s = Callback s st"
      unfolding m flush_effect_def that by simp
    have "callbacks_of s (frame w') = callbacks_of s w' @ [Callback s st]"
      unfolding callbacks_of_frame[OF i' a'] fe by simp
    then show ?thesis unfolding c .
  qed
  have L: "callbacks_of s (frame w') = callbacks_of s w \<and>
           Uncaught e \<in> set (drop (length (log w')) (log (frame w')))"
    if "collect (document w') ?m = Inl e" for e
  proof -
    have fe: "flush_effect (document w') (s_manifest (sessions w' ! s)) s = Uncaught e"
      unfolding m flush_effect_def that by simp
    have "callbacks_of s (frame w') = callbacks_of s w'"
      unfolding callbacks_of_frame[OF i' a'] fe by simp
    then have "callbacks_of s (frame w') = callbacks_of s w" unfolding c .
    moreover from own_effect_of_frame[OF i' a']
    have "Uncaught e \<in> set (drop (length (log w')) (log (frame w')))"
      unfolding fe .
    ultimately show ?thesis by (rule conjI)
  qed
  show ?thesis
  proof (intro conjI allI impI)
    show "filter (\<lambda>(h, s'). s' = s) (frame_callbacks w') =
           [(the (pending (sessions w' ! s)), s)]"
      by (rule own_frame_callback[OF i' a'])
    show "callbacks_of s w' = callbacks_of s w" by (rule c)
    show "callbacks_of s (frame w') = callbacks_of s w @ [Callback s st]"
      if "collect (document w') ?m = Inr st" for st using that by (rule R)
    show "callbacks_of s (frame w') = callbacks_of s w"
      if "collect (document w') ?m = Inl e" for e using L[OF that] by (rule conjunct1)
    show "Uncaught e \<in> set (drop (length (log w')) (log (frame w')))"
      if "collect (document w') ?m = Inl e" for e using L[OF that] by (rule conjunct2)
  qed
qed

lemma scheduleCallback_twice:
  "0 < next_handle w \<Longrightarrow> scheduleCallback s (scheduleCallback s w) = scheduleCallback s w"
  by (simp add: scheduleCallback_eq)

lemma html_session_eq:
  "html_session =
     \<lparr>document = page, sharedObserver = Some body_observer, observers_created = 1,
      records = [], observerCallbacks = [Handler 0], onCallbacks = [],
      body_listeners =
        [\<lparr>l_type = ''input'', l_session = 0, l_entry = 0, l_selector = Some ''#a''\<rparr>],
      frame_callbacks = [(1, 0)], next_handle = 2,
      sessions = [\<lparr>s_manifest = html_manifest, pending = Some 1,
                   cleanups = [RemoveListener ''input'' 0 0, DeleteSubscriber (Handler 0)]\<rparr>],
      log = []\<rparr>"
  by (simp add: html_session_def run_Cons run_Nil observe_def Let_def initial_def
        ensureObserver_def set_add_def body_observer_def html_manifest_def getWatchEvent_def
        removal_def dispatchEvent_def handler_def input_at_a[unfolded One_nat_def]
        descendant_of_def document_body_def scheduleCallback_eq)

lemma collect_body_manifest:
  "collect page_edited body_manifest = Inr [(''a'', JString ''10''), (''cls'', JNull)]"
  by (simp add: collect_def collect_entry_def body_manifest_def entry_def assign_def
        querySelectorAll_def page_edited_def elem_def startsWith_def getAttribute_def)

lemma collect_html_manifest:
  "collect page html_manifest = Inl (Error ''Unknown read shortcut: html'')"
  by (simp add: collect_def collect_entry_def html_manifest_def startsWith_def)

text \<open>
  C3, as the code has it. The frame callback calls \<open>callback(collect(manifest))\<close>, so the
  callback is called only if \<open>collect\<close> returns. For a session of a state reached from the
  page as loaded, and a window in which a trigger of the session fires at least once,
  with anything else happening in between except a frame and the session's unsubscribe:
  a second firing right after a first changes nothing; at the end of the window the host
  holds exactly one frame callback of the session; the callback has not been called
  during the window; if \<open>collect\<close> returns a snapshot of the document as it is at the
  frame, the frame calls the callback exactly once, with that snapshot; and if \<open>collect\<close>
  throws at the frame, whatever makes it throw, the frame does not call the callback and
  the error goes to the host.
\<close>

theorem one_callback_per_window:
  assumes "w = run evs (initial d)" and "s < length (sessions w)"
    and "Trigger \<in> set acts" and "Host Frame \<notin> set acts"
    and "Host (Unsubscribe s) \<notin> set acts"
    and "w' = fold (act s) acts w"
  shows "scheduleCallback s (scheduleCallback s w) = scheduleCallback s w \<and>
         filter (\<lambda>(h, s'). s' = s) (frame_callbacks w') =
           [(the (pending (sessions w' ! s)), s)] \<and>
         callbacks_of s w' = callbacks_of s w \<and>
         (\<forall>st. collect (document w') (s_manifest (sessions w ! s)) = Inr st \<longrightarrow>
            callbacks_of s (frame w') = callbacks_of s w @ [Callback s st]) \<and>
         (\<forall>e. collect (document w') (s_manifest (sessions w ! s)) = Inl e \<longrightarrow>
            callbacks_of s (frame w') = callbacks_of s w \<and>
            Uncaught e \<in> set (drop (length (log w')) (log (frame w'))))"
proof -
  from assms(1) have i: "invariant w" by (simp add: invariant_reachable)
  then have "0 < next_handle w" by (simp add: invariant_def inv_frames_def)
  then have "scheduleCallback s (scheduleCallback s w) = scheduleCallback s w"
    by (rule scheduleCallback_twice)
  then show ?thesis using window_flush[OF i assms(2-6)] by (rule conjI)
qed

theorem one_callback_per_window_witness:
  "0 < length (sessions body_session) \<and>
   collect page_edited body_manifest = Inr [(''a'', JString ''10''), (''cls'', JNull)] \<and>
   scheduleCallback 0 (scheduleCallback 0 body_session) = scheduleCallback 0 body_session \<and>
   callbacks_of 0
     (frame (fold (act 0)
        [Host (SetDocument page_edited), Trigger, Host (DispatchEvent ''input'' [0, 1]), Trigger]
        body_session)) =
     callbacks_of 0 body_session @ [Callback 0 [(''a'', JString ''10''), (''cls'', JNull)]] \<and>
   0 < length (sessions html_session) \<and>
   collect page html_manifest = Inl (Error ''Unknown read shortcut: html'') \<and>
   callbacks_of 0 (frame (fold (act 0) [Trigger] html_session)) = callbacks_of 0 html_session \<and>
   Uncaught (Error ''Unknown read shortcut: html'')
     \<in> set (drop (length (log (fold (act 0) [Trigger] html_session)))
              (log (frame (fold (act 0) [Trigger] html_session))))"
proof -
  let ?acts = "[Host (SetDocument page_edited), Trigger,
                Host (DispatchEvent ''input'' [0, 1]), Trigger]"
  have l: "0 < length (sessions body_session)" by (simp add: body_session_eq)
  have t: "Trigger \<in> set ?acts" and f: "Host Frame \<notin> set ?acts"
    and u: "Host (Unsubscribe 0) \<notin> set ?acts" by simp_all
  have d: "document (fold (act 0) ?acts body_session) = page_edited"
    by (simp add: body_session_eq scheduleCallback_eq dispatchEvent_def handler_def
          input_at_a[unfolded One_nat_def] descendant_of_def document_body_def)
  have m: "s_manifest (sessions body_session ! 0) = body_manifest"
    by (simp add: body_session_eq)
  have c: "collect (document (fold (act 0) ?acts body_session))
             (s_manifest (sessions body_session ! 0)) =
           Inr [(''a'', JString ''10''), (''cls'', JNull)]"
    unfolding d m by (rule collect_body_manifest)
  note b = one_callback_per_window[OF body_session_def l t f u refl]
  from b have 1: "scheduleCallback 0 (scheduleCallback 0 body_session) =
      scheduleCallback 0 body_session" by (rule conjunct1)
  from b c have 2: "callbacks_of 0 (frame (fold (act 0) ?acts body_session)) =
      callbacks_of 0 body_session @ [Callback 0 [(''a'', JString ''10''), (''cls'', JNull)]]"
    by blast
  have l': "0 < length (sessions html_session)" by (simp add: html_session_eq)
  have t': "Trigger \<in> set [Trigger]" and f': "Host Frame \<notin> set [Trigger]"
    and u': "Host (Unsubscribe 0) \<notin> set [Trigger]" by simp_all
  have d': "document (fold (act 0) [Trigger] html_session) = page"
    by (simp add: html_session_eq scheduleCallback_eq)
  have m': "s_manifest (sessions html_session ! 0) = html_manifest"
    by (simp add: html_session_eq)
  have c': "collect (document (fold (act 0) [Trigger] html_session))
              (s_manifest (sessions html_session ! 0)) =
            Inl (Error ''Unknown read shortcut: html'')"
    unfolding d' m' by (rule collect_html_manifest)
  note h = one_callback_per_window[OF html_session_def l' t' f' u' refl]
  from h c' have 3: "callbacks_of 0 (frame (fold (act 0) [Trigger] html_session)) =
      callbacks_of 0 html_session"
    and 4: "Uncaught (Error ''Unknown read shortcut: html'')
      \<in> set (drop (length (log (fold (act 0) [Trigger] html_session)))
               (log (frame (fold (act 0) [Trigger] html_session))))"
    by blast+
  from l collect_body_manifest 1 2 l' collect_html_manifest 3 4 show ?thesis by blast
qed

text \<open>
  The claim as it is written fails for a session whose manifest has a read directive
  that \<open>collect\<close> does not know: after an \<open>input\<close> event at \<open>#a\<close> a flush is scheduled, and
  the frame throws instead of calling the callback.
\<close>

theorem one_callback_per_window_counterexample:
  "frame_callbacks html_session = [(1, 0)] \<and>
   log (run [Frame] html_session) = [Uncaught (Error ''Unknown read shortcut: html'')]"
  by (simp add: run_Cons run_Nil html_session_eq frame_def flush_def set_pending_def
        collect_def collect_entry_def html_manifest_def startsWith_def)

section \<open>unsubscribe: the other sessions\<close>

lemma ready_scheduleCallback: "ready d s m w \<Longrightarrow> ready d s m (scheduleCallback s' w)"
  by (auto simp: ready_def scheduleCallback_eq nth_list_update)

lemma ready_log: "ready d s m w \<Longrightarrow> ready d s m (w\<lparr>log := log w @ [e]\<rparr>)"
  by (simp add: ready_def)

lemma ready_handler: "ready d s m w \<Longrightarrow> ready d s m (handler l t w)"
  by (simp add: handler_def ready_scheduleCallback ready_log)

lemma ready_logs: "ready d s m w \<Longrightarrow> ready d s m (w\<lparr>log := log w @ es\<rparr>)"
  by (simp add: ready_def)

lemma ready_invoke: "ready d s m w \<Longrightarrow> ready d s m (invoke b sub w)"
proof (cases sub)
  case (Handler s')
  assume "ready d s m w"
  with Handler show ?thesis
    by (simp add: invoke_Handler mutationHandler_def ready_scheduleCallback ready_log)
next
  case (Raw cb)
  assume "ready d s m w"
  with Raw show ?thesis by (simp add: invoke_Raw ready_logs)
qed

lemma ready_arms: "ready d s m w \<Longrightarrow> armed s (scheduleCallback s w)"
  by (simp add: ready_def scheduleCallback_arms)

lemma handlers_arm:
  assumes "is_element d t"
  shows "ready d s m w \<Longrightarrow>
         armed s w \<or> (\<exists>l \<in> set ls. l_session l = s \<and> matches d t (sel_arg (l_selector l))) \<Longrightarrow>
         armed s (fold (\<lambda>l. handler l t) ls w)"
proof (induction ls arbitrary: w)
  case Nil
  then show ?case by simp
next
  case (Cons x ls)
  from Cons.prems(1) have r: "ready d s m (handler x t w)" by (rule ready_handler)
  have "armed s (handler x t w) \<or>
        (\<exists>l \<in> set ls. l_session l = s \<and> matches d t (sel_arg (l_selector l)))"
  proof (cases "armed s w")
    case True
    then show ?thesis by (simp add: armed_handler)
  next
    case False
    with Cons.prems(2) have
      "(l_session x = s \<and> matches d t (sel_arg (l_selector x))) \<or>
       (\<exists>l \<in> set ls. l_session l = s \<and> matches d t (sel_arg (l_selector l)))" by auto
    then show ?thesis
    proof
      assume x: "l_session x = s \<and> matches d t (sel_arg (l_selector x))"
      from Cons.prems(1) have "document w = d" by (simp add: ready_def)
      with x assms have "handler x t w = scheduleCallback s w" by (simp add: handler_def)
      with ready_arms[OF Cons.prems(1)] show ?thesis by simp
    next
      assume "\<exists>l \<in> set ls. l_session l = s \<and> matches d t (sel_arg (l_selector l))"
      then show ?thesis ..
    qed
  qed
  from Cons.IH[OF r this] show ?case by simp
qed

lemma subscribers_arm:
  assumes "mutation_loop d (watchedSelectors m) b"
  shows "ready d s m w \<Longrightarrow> armed s w \<or> Handler s \<in> set subs \<Longrightarrow>
         armed s (fold (invoke b) subs w)"
proof (induction subs arbitrary: w)
  case Nil
  then show ?case by simp
next
  case (Cons x subs)
  from Cons.prems(1) have r: "ready d s m (invoke b x w)" by (rule ready_invoke)
  have "armed s (invoke b x w) \<or> Handler s \<in> set subs"
  proof (cases "armed s w")
    case True
    then show ?thesis by (simp add: armed_invoke)
  next
    case False
    with Cons.prems(2) have "x = Handler s \<or> Handler s \<in> set subs" by auto
    then show ?thesis
    proof
      assume x: "x = Handler s"
      let ?w = "w\<lparr>log := log w @ [Invoked x b]\<rparr>"
      from Cons.prems(1) have r': "ready d s m ?w" by (rule ready_log)
      with assms have "mutationHandler s b ?w = scheduleCallback s ?w"
        by (simp add: mutationHandler_def ready_def)
      with ready_arms[OF r'] x show ?thesis by (simp add: invoke_Handler)
    next
      assume "Handler s \<in> set subs"
      then show ?thesis ..
    qed
  qed
  from Cons.IH[OF r this] show ?case by simp
qed

lemma matches_is_element: "matches d t sel \<Longrightarrow> is_element d t"
  by (auto simp: matches_def is_element_def split: option.splits)

lemma invariant_ready:
  "invariant w \<Longrightarrow> s < length (sessions w) \<Longrightarrow>
   ready (document w) s (s_manifest (sessions w ! s)) w"
  by (simp add: ready_def invariant_def inv_frames_def)

lemma ready_fold:
  "(\<And>x w. ready d s m w \<Longrightarrow> ready d s m (f x w)) \<Longrightarrow> ready d s m w \<Longrightarrow>
   ready d s m (fold f xs w)"
  by (induction xs arbitrary: w) simp_all

lemma flush_after:
  assumes "invariant w'" "armed s w'" "keeps s m c w'" "document w' = d"
    and "collect d m = Inr st"
  shows "callbacks_of s (frame w') = c @ [Callback s st]"
proof -
  from assms(3) have "s_manifest (sessions w' ! s) = m" "callbacks_of s w' = c"
    by (simp_all add: keeps_def)
  with callbacks_of_frame[OF assms(1,2)] assms(4,5) show ?thesis
    by (simp add: flush_effect_def)
qed

lemma listener_fires:
  assumes "invariant w" and "s < length (sessions w)"
    and "l \<in> set (body_listeners w)" and "l_session l = s" and "l_type l = ty"
    and "t = document_body \<or> descendant_of t document_body"
    and "matches (document w) t (sel_arg (l_selector l))"
    and "collect (document w) (s_manifest (sessions w ! s)) = Inr st"
  shows "callbacks_of s (frame (dispatchEvent ty t w)) = callbacks_of s w @ [Callback s st]"
proof -
  let ?m = "s_manifest (sessions w ! s)"
  let ?ls = "filter (\<lambda>l. l_type l = ty) (body_listeners w)"
  let ?w = "dispatchEvent ty t w"
  from assms(6) have eq: "?w = fold (\<lambda>l. handler l t) ?ls w" by (simp add: dispatchEvent_def)
  have r: "ready (document w) s ?m w" using assms(1,2) by (rule invariant_ready)
  from assms(3,4,5,7) have
    "\<exists>l \<in> set ?ls. l_session l = s \<and> matches (document w) t (sel_arg (l_selector l))"
    by auto
  with handlers_arm[OF matches_is_element[OF assms(7)] r, of ?ls] have a: "armed s ?w"
    unfolding eq by blast
  have "ready (document w) s ?m ?w"
    unfolding eq by (rule ready_fold[OF ready_handler r])
  then have d: "document ?w = document w" by (simp add: ready_def)
  have i: "invariant ?w" using assms(1) by (rule invariant_dispatchEvent)
  from assms(2) have "keeps s ?m (callbacks_of s w) w" by (simp add: keeps_def)
  then have k: "keeps s ?m (callbacks_of s w) ?w"
    using keeps_step[of s ?m "callbacks_of s w" w "DispatchEvent ty t"] by simp
  from flush_after[OF i a k d assms(8)] show ?thesis .
qed

lemma subscriber_fires:
  assumes "invariant w" and "s < length (sessions w)"
    and "Handler s \<in> set (reached (records w) (observerCallbacks w))" and "records w \<noteq> []"
    and "mutation_loop (document w) (watchedSelectors (s_manifest (sessions w ! s))) (records w)"
    and "collect (document w) (s_manifest (sessions w ! s)) = Inr st"
  shows "callbacks_of s (frame (deliver w)) = callbacks_of s w @ [Callback s st]"
proof -
  let ?m = "s_manifest (sessions w ! s)"
  let ?v = "w\<lparr>records := []\<rparr>"
  let ?w = "deliver w"
  let ?subs = "reached (records w) (observerCallbacks w)"
  from assms(4) have eq: "?w = fold (invoke (records w)) ?subs ?v"
    by (simp add: deliver_fold)
  from invariant_ready[OF assms(1,2)] have r: "ready (document w) s ?m ?v"
    by (simp add: ready_def)
  from subscribers_arm[OF assms(5) r, of ?subs] assms(3) have a: "armed s ?w"
    unfolding eq by blast
  have "ready (document w) s ?m ?w"
    unfolding eq by (rule ready_fold[OF ready_invoke r])
  then have d: "document ?w = document w" by (simp add: ready_def)
  have i: "invariant ?w" using assms(1) by (rule invariant_deliver)
  from assms(2) have "keeps s ?m (callbacks_of s w) w" by (simp add: keeps_def)
  then have k: "keeps s ?m (callbacks_of s w) ?w" by (rule keeps_deliver)
  from flush_after[OF i a k d assms(6)] show ?thesis .
qed


lemma own_cleanups:
  assumes "invariant w" "s < length (sessions w)" "c \<in> set (cleanups (sessions w ! s))"
  shows "own_cleanup s c"
  using assms by (auto simp: invariant_def inv_cleanups_def list_all_iff)

lemma removes_own:
  assumes "invariant w" "s < length (sessions w)" "removes (cleanups (sessions w ! s)) l"
  shows "l_session l = s"
  using own_cleanups[OF assms(1,2)] assms(3) by (force simp: removes_def own_cleanup_def)

lemma deletes_own:
  assumes "invariant w" "s < length (sessions w)"
    "DeleteSubscriber sub \<in> set (cleanups (sessions w ! s))"
  shows "sub = Handler s"
  using own_cleanups[OF assms] by (simp add: own_cleanup_def)

lemma other_listeners:
  assumes "invariant w" "s1 \<noteq> s2"
  shows "filter (\<lambda>l. l_session l = s2) (body_listeners (unsubscribe s1 w)) =
         filter (\<lambda>l. l_session l = s2) (body_listeners w)"
proof (cases "s1 < length (sessions w)")
  case False
  then show ?thesis by (simp add: unsubscribe_def)
next
  case True
  have "filter (\<lambda>l. l_session l = s2)
          (filter (\<lambda>l. \<not> removes (cleanups (sessions w ! s1)) l) (body_listeners w)) =
        filter (\<lambda>l. l_session l = s2) (body_listeners w)"
    unfolding filter_filter
    by (rule filter_cong) (use removes_own[OF assms(1) True] assms(2) in auto)
  with True show ?thesis by (simp add: unsubscribe_eq)
qed

lemma other_subscribers:
  assumes "invariant w" "sub \<noteq> Handler s1"
  shows "(sub \<in> set (observerCallbacks (unsubscribe s1 w))) = (sub \<in> set (observerCallbacks w))"
proof (cases "s1 < length (sessions w)")
  case False
  then show ?thesis by (simp add: unsubscribe_def)
next
  case True
  from deletes_own[OF assms(1) True] assms(2)
  have "DeleteSubscriber sub \<notin> set (cleanups (sessions w ! s1))" by blast
  with True show ?thesis by (simp add: unsubscribe_eq)
qed

lemma other_reached:
  assumes "invariant w" "sub \<noteq> Handler s1" "sub \<in> set (reached b (observerCallbacks w))"
  shows "sub \<in> set (reached b (observerCallbacks (unsubscribe s1 w)))"
proof (cases "s1 < length (sessions w)")
  case False
  with assms(3) show ?thesis by (simp add: unsubscribe_def)
next
  case True
  from deletes_own[OF assms(1) True] assms(2)
  have "DeleteSubscriber sub \<notin> set (cleanups (sessions w ! s1))" by blast
  with reached_filter[OF assms(3),
      of "\<lambda>sub. DeleteSubscriber sub \<notin> set (cleanups (sessions w ! s1))"] True
  show ?thesis by (simp add: unsubscribe_eq)
qed

lemma other_session: "s1 \<noteq> s2 \<Longrightarrow> sessions (unsubscribe s1 w) ! s2 = sessions w ! s2"
  by (simp add: sessions_unsubscribe)

lemma other_frame_callbacks:
  assumes "invariant w" "s1 \<noteq> s2"
  shows "filter (\<lambda>(h, s). s = s2) (frame_callbacks (unsubscribe s1 w)) =
         filter (\<lambda>(h, s). s = s2) (frame_callbacks w)"
proof (cases "s1 < length (sessions w) \<and> truthy_handle (pending (sessions w ! s1))")
  case False
  then show ?thesis
    by (cases "s1 < length (sessions w)") (simp add: unsubscribe_eq, simp add: unsubscribe_def)
next
  case True
  then obtain h where h: "pending (sessions w ! s1) = Some h" "h \<noteq> 0"
    by (auto simp: truthy_handle_iff)
  from assms(1) True h have in1: "(h, s1) \<in> set (frame_callbacks w)"
    by (auto simp: invariant_def inv_pending_def)
  have ne: "h' \<noteq> h" if "(h', s2) \<in> set (frame_callbacks w)" for h'
  proof
    assume "h' = h"
    with that in1 assms(1) have "s1 = s2"
      by (auto simp: invariant_def inv_frames_def dest: eq_key_imp_eq_value)
    with assms(2) show False by simp
  qed
  have "filter (\<lambda>(h, s). s = s2) (filter (\<lambda>(h', s'). h' \<noteq> h) (frame_callbacks w)) =
        filter (\<lambda>(h, s). s = s2) (frame_callbacks w)"
    unfolding filter_filter
    by (rule filter_cong) (use ne in auto)
  with True h show ?thesis by (simp add: unsubscribe_eq)
qed

lemma two_sessions_eq:
  "two_sessions =
     text_session\<lparr>records := body_changed, observerCallbacks := [Handler 0, Handler 1],
       body_listeners :=
         [\<lparr>l_type = ''input'', l_session = 1, l_entry = 0, l_selector = Some ''#a''\<rparr>],
       sessions :=
         [\<lparr>s_manifest = text_manifest, pending = None,
           cleanups = [DeleteSubscriber (Handler 0)]\<rparr>,
          \<lparr>s_manifest = body_manifest, pending = None,
           cleanups = [RemoveListener ''input'' 1 0, DeleteSubscriber (Handler 1)]\<rparr>]\<rparr>"
  by (simp add: two_sessions_def run_Cons run_Nil text_session_def[symmetric])
     (simp add: text_session_eq observe_def Let_def ensureObserver_def set_add_def
        body_manifest_def entry_def getWatchEvent_def removal_def queue_records_def
        body_observer_def interested_def document_body_def body_changed_def)

lemma collect_page_body_manifest:
  "collect page body_manifest = Inr [(''a'', JString ''1''), (''cls'', JNull)]"
  by (simp add: collect_def collect_entry_def body_manifest_def entry_def assign_def
        querySelectorAll_def page_def elem_def startsWith_def getAttribute_def)

lemma body_watched_hit: "mutation_loop page (watchedSelectors body_manifest) body_changed"
  by (simp add: watchedSelectors_def body_manifest_def entry_def getWatchEvent_def
        body_changed_def is_element_def target_hit_def matches_def node_at_def page_def
        elem_def)

text \<open>
  C10. For two different sessions of a state reached from the page as loaded, the
  unsubscribe function of the first leaves the second's listeners on \<open>document.body\<close>, every
  subscriber other than the first's own handler (the second's handler, every raw
  subscriber), the second's variables and the second's frame callback as they were. And
  the second's triggers still lead to its callback: after the first's unsubscribe, an event
  at a target that one of the second's listeners matches, or the delivery of a batch
  relevant to the second's watched selectors, is followed at the next frame by one call of
  the second's callback with the snapshot, if \<open>collect\<close> returns one. The delivery of a
  batch stops at the first subscriber that throws, so a batch is a trigger of the second
  session when none of the subscribers ahead of its handler throws on it.
\<close>

theorem unsubscribe_leaves_others:
  assumes "w = run evs (initial d)" and "s1 \<noteq> s2" and "s2 < length (sessions w)"
  shows "filter (\<lambda>l. l_session l = s2) (body_listeners (unsubscribe s1 w)) =
           filter (\<lambda>l. l_session l = s2) (body_listeners w) \<and>
         (\<forall>sub. sub \<noteq> Handler s1 \<longrightarrow>
            (sub \<in> set (observerCallbacks (unsubscribe s1 w))) =
            (sub \<in> set (observerCallbacks w))) \<and>
         sessions (unsubscribe s1 w) ! s2 = sessions w ! s2 \<and>
         filter (\<lambda>(h, s). s = s2) (frame_callbacks (unsubscribe s1 w)) =
           filter (\<lambda>(h, s). s = s2) (frame_callbacks w) \<and>
         (\<forall>l t st. l \<in> set (body_listeners w) \<and> l_session l = s2 \<and>
            (t = document_body \<or> descendant_of t document_body) \<and>
            matches (document w) t (sel_arg (l_selector l)) \<and>
            collect (document w) (s_manifest (sessions w ! s2)) = Inr st \<longrightarrow>
            callbacks_of s2 (frame (dispatchEvent (l_type l) t (unsubscribe s1 w))) =
              callbacks_of s2 w @ [Callback s2 st]) \<and>
         (\<forall>st. Handler s2 \<in> set (observerCallbacks w) \<and> records w \<noteq> [] \<and>
            list_all (\<lambda>sub. \<not> throws (records w) sub)
              (takeWhile (\<lambda>sub. sub \<noteq> Handler s2) (observerCallbacks w)) \<and>
            mutation_loop (document w) (watchedSelectors (s_manifest (sessions w ! s2)))
              (records w) \<and>
            collect (document w) (s_manifest (sessions w ! s2)) = Inr st \<longrightarrow>
            callbacks_of s2 (frame (deliver (unsubscribe s1 w))) =
              callbacks_of s2 w @ [Callback s2 st])"
proof -
  let ?u = "unsubscribe s1 w"
  from assms(1) have i: "invariant w" by (simp add: invariant_reachable)
  then have iu: "invariant ?u" by (rule invariant_unsubscribe)
  have ls: "filter (\<lambda>l. l_session l = s2) (body_listeners ?u) =
            filter (\<lambda>l. l_session l = s2) (body_listeners w)"
    using i assms(2) by (rule other_listeners)
  have subs: "(sub \<in> set (observerCallbacks ?u)) = (sub \<in> set (observerCallbacks w))"
    if "sub \<noteq> Handler s1" for sub using i that by (rule other_subscribers)
  have se: "sessions ?u ! s2 = sessions w ! s2" using assms(2) by (rule other_session)
  have fr: "filter (\<lambda>(h, s). s = s2) (frame_callbacks ?u) =
            filter (\<lambda>(h, s). s = s2) (frame_callbacks w)"
    using i assms(2) by (rule other_frame_callbacks)
  have len: "s2 < length (sessions ?u)" using assms(3) by (simp add: sessions_unsubscribe)
  have doc: "document ?u = document w" and rec: "records ?u = records w"
    by (simp_all add: unsubscribe_def Let_def fold_run_cleanup set_pending_def
          cancelAnimationFrame_def)
  have cb: "callbacks_of s2 ?u = callbacks_of s2 w"
    by (simp add: callbacks_of_def log_unsubscribe)
  have ev: "callbacks_of s2 (frame (dispatchEvent (l_type l) t ?u)) =
              callbacks_of s2 w @ [Callback s2 st]"
    if "l \<in> set (body_listeners w)" "l_session l = s2"
      "t = document_body \<or> descendant_of t document_body"
      "matches (document w) t (sel_arg (l_selector l))"
      "collect (document w) (s_manifest (sessions w ! s2)) = Inr st" for l t st
  proof -
    from that(1,2) have "l \<in> set (filter (\<lambda>l. l_session l = s2) (body_listeners w))" by simp
    then have "l \<in> set (body_listeners ?u)" unfolding ls[symmetric] by simp
    from listener_fires[OF iu len this that(2) refl that(3)] that(4,5)
    show ?thesis by (simp add: doc se cb)
  qed
  have mu: "callbacks_of s2 (frame (deliver ?u)) = callbacks_of s2 w @ [Callback s2 st]"
    if "Handler s2 \<in> set (observerCallbacks w)" "records w \<noteq> []"
      "list_all (\<lambda>sub. \<not> throws (records w) sub)
         (takeWhile (\<lambda>sub. sub \<noteq> Handler s2) (observerCallbacks w))"
      "mutation_loop (document w) (watchedSelectors (s_manifest (sessions w ! s2))) (records w)"
      "collect (document w) (s_manifest (sessions w ! s2)) = Inr st" for st
  proof -
    from assms(2) have n: "Handler s2 \<noteq> Handler s1" by simp
    from that(1,3) have "Handler s2 \<in> set (reached (records w) (observerCallbacks w))"
      by (rule reached_ahead)
    with i n have "Handler s2 \<in> set (reached (records w) (observerCallbacks ?u))"
      by (rule other_reached)
    then have "Handler s2 \<in> set (reached (records ?u) (observerCallbacks ?u))"
      by (simp add: rec)
    from subscriber_fires[OF iu len this] that(2,4,5)
    show ?thesis by (simp add: doc rec se cb)
  qed
  from ls subs se fr ev mu show ?thesis by blast
qed

theorem unsubscribe_leaves_others_witness:
  "(0::nat) \<noteq> 1 \<and> 1 < length (sessions two_sessions) \<and>
   body_listeners two_sessions =
     [\<lparr>l_type = ''input'', l_session = 1, l_entry = 0, l_selector = Some ''#a''\<rparr>] \<and>
   observerCallbacks two_sessions = [Handler 0, Handler 1] \<and>
   list_all (\<lambda>sub. \<not> throws (records two_sessions) sub)
     (takeWhile (\<lambda>sub. sub \<noteq> Handler 1) (observerCallbacks two_sessions)) \<and>
   filter (\<lambda>l. l_session l = 1) (body_listeners (unsubscribe 0 two_sessions)) =
     filter (\<lambda>l. l_session l = 1) (body_listeners two_sessions) \<and>
   Handler 1 \<in> set (observerCallbacks (unsubscribe 0 two_sessions)) \<and>
   sessions (unsubscribe 0 two_sessions) ! 1 = sessions two_sessions ! 1 \<and>
   callbacks_of 1 (frame (dispatchEvent ''input'' [0, 1] (unsubscribe 0 two_sessions))) =
     callbacks_of 1 two_sessions @ [Callback 1 [(''a'', JString ''1''), (''cls'', JNull)]] \<and>
   callbacks_of 1 (frame (deliver (unsubscribe 0 two_sessions))) =
     callbacks_of 1 two_sessions @ [Callback 1 [(''a'', JString ''1''), (''cls'', JNull)]]"
proof -
  let ?l = "\<lparr>l_type = ''input'', l_session = 1, l_entry = 0, l_selector = Some ''#a''\<rparr>"
  have n: "(0::nat) \<noteq> 1" by simp
  have len: "1 < length (sessions two_sessions)"
    and ls: "body_listeners two_sessions = [?l]"
    and subs: "observerCallbacks two_sessions = [Handler 0, Handler 1]"
    and doc: "document two_sessions = page"
    and man: "s_manifest (sessions two_sessions ! 1) = body_manifest"
    and rec: "records two_sessions = body_changed"
    by (simp_all add: two_sessions_eq text_session_eq)
  have l: "?l \<in> set (body_listeners two_sessions)" "l_session ?l = 1" "l_type ?l = ''input''"
    "sel_arg (l_selector ?l) = ''#a''" by (simp_all add: ls)
  have t: "[0, 1] = document_body \<or> descendant_of [0, 1] document_body"
    by (rule disjI2) (rule input_at_a(5))
  have h: "Handler 1 \<in> set (observerCallbacks two_sessions)" "Handler 1 \<noteq> Handler 0"
    "records two_sessions \<noteq> []"
    by (simp_all add: subs rec body_changed_def)
  have a: "list_all (\<lambda>sub. \<not> throws (records two_sessions) sub)
     (takeWhile (\<lambda>sub. sub \<noteq> Handler 1) (observerCallbacks two_sessions))"
    by (simp add: subs throws_def)
  note th = unsubscribe_leaves_others[OF two_sessions_def n len]
  from th have 1:
    "filter (\<lambda>l. l_session l = 1) (body_listeners (unsubscribe 0 two_sessions)) =
     filter (\<lambda>l. l_session l = 1) (body_listeners two_sessions)"
    and 3: "sessions (unsubscribe 0 two_sessions) ! 1 = sessions two_sessions ! 1"
    by blast+
  from th h have 2: "Handler 1 \<in> set (observerCallbacks (unsubscribe 0 two_sessions))"
    by blast
  have m4: "matches (document two_sessions) [0, 1] (sel_arg (l_selector ?l))"
    unfolding doc l(4) by (rule input_at_a(2))
  have c5: "collect (document two_sessions) (s_manifest (sessions two_sessions ! 1)) =
         Inr [(''a'', JString ''1''), (''cls'', JNull)]"
    unfolding doc man by (rule collect_page_body_manifest)
  have m5: "mutation_loop (document two_sessions)
         (watchedSelectors (s_manifest (sessions two_sessions ! 1))) (records two_sessions)"
    unfolding doc man rec by (rule body_watched_hit)
  from th have
    "?l \<in> set (body_listeners two_sessions) \<and> l_session ?l = 1 \<and>
       ([0, 1] = document_body \<or> descendant_of [0, 1] document_body) \<and>
       matches (document two_sessions) [0, 1] (sel_arg (l_selector ?l)) \<and>
       collect (document two_sessions) (s_manifest (sessions two_sessions ! 1)) =
         Inr [(''a'', JString ''1''), (''cls'', JNull)] \<longrightarrow>
     callbacks_of 1 (frame (dispatchEvent (l_type ?l) [0, 1] (unsubscribe 0 two_sessions))) =
       callbacks_of 1 two_sessions @ [Callback 1 [(''a'', JString ''1''), (''cls'', JNull)]]"
    by blast
  with l(1,2) t m4 c5 have
    "callbacks_of 1 (frame (dispatchEvent (l_type ?l) [0, 1] (unsubscribe 0 two_sessions))) =
       callbacks_of 1 two_sessions @ [Callback 1 [(''a'', JString ''1''), (''cls'', JNull)]]"
    by blast
  then have 4:
    "callbacks_of 1 (frame (dispatchEvent ''input'' [0, 1] (unsubscribe 0 two_sessions))) =
       callbacks_of 1 two_sessions @ [Callback 1 [(''a'', JString ''1''), (''cls'', JNull)]]"
    unfolding l(3) .
  from th have
    "Handler 1 \<in> set (observerCallbacks two_sessions) \<and> records two_sessions \<noteq> [] \<and>
       list_all (\<lambda>sub. \<not> throws (records two_sessions) sub)
         (takeWhile (\<lambda>sub. sub \<noteq> Handler 1) (observerCallbacks two_sessions)) \<and>
       mutation_loop (document two_sessions)
         (watchedSelectors (s_manifest (sessions two_sessions ! 1))) (records two_sessions) \<and>
       collect (document two_sessions) (s_manifest (sessions two_sessions ! 1)) =
         Inr [(''a'', JString ''1''), (''cls'', JNull)] \<longrightarrow>
     callbacks_of 1 (frame (deliver (unsubscribe 0 two_sessions))) =
       callbacks_of 1 two_sessions @ [Callback 1 [(''a'', JString ''1''), (''cls'', JNull)]]"
    by blast
  with h(1,3) a m5 c5 have 5:
    "callbacks_of 1 (frame (deliver (unsubscribe 0 two_sessions))) =
       callbacks_of 1 two_sessions @ [Callback 1 [(''a'', JString ''1''), (''cls'', JNull)]]"
    by blast
  from n len ls subs a 1 2 3 4 5 show ?thesis by blast
qed

section \<open>unsubscribe: calling it again\<close>

lemma quiet_not_armed:
  assumes "invariant w" "quiet s w"
  shows "\<not> truthy_handle (pending (sessions w ! s))"
proof
  assume "truthy_handle (pending (sessions w ! s))"
  with assms have "(the (pending (sessions w ! s)), s) \<in> set (frame_callbacks w)"
    by (simp add: invariant_def inv_pending_def quiet_def)
  with assms(2) show False by (auto simp: quiet_def list_all_iff)
qed

lemma unsubscribe_quiet:
  assumes "invariant w" "quiet s w"
  shows "unsubscribe s w = w"
proof -
  from assms(2) have len: "s < length (sessions w)" by (simp add: quiet_def)
  have "filter (\<lambda>l. \<not> removes (cleanups (sessions w ! s)) l) (body_listeners w) =
        body_listeners w"
    unfolding filter_id_conv
    using removes_own[OF assms(1) len] assms(2) by (auto simp: quiet_def list_all_iff)
  moreover have
    "filter (\<lambda>sub. DeleteSubscriber sub \<notin> set (cleanups (sessions w ! s)))
       (observerCallbacks w) = observerCallbacks w"
    unfolding filter_id_conv
    using deletes_own[OF assms(1) len] assms(2) by (auto simp: quiet_def)
  ultimately show ?thesis
    using len quiet_not_armed[OF assms] by (simp add: unsubscribe_eq)
qed

text \<open>
  C5. Calling the function \<open>observe\<close> returned two or more times in a row leaves the state
  exactly as one call leaves it, whatever the state was before (a flush pending or not, a
  trigger fired or not), and a call adds nothing to the log: no callback is called and
  no error is thrown. For a session of a state reached from the page as loaded, a further
  call at any later time changes nothing at all.
\<close>

theorem unsubscribe_twice:
  "(unsubscribe s ^^ Suc n) w = unsubscribe s w \<and> log (unsubscribe s w) = log w \<and>
   (w = run evs (initial d) \<and> s < length (sessions w) \<longrightarrow>
      unsubscribe s (run evs' (unsubscribe s w)) = run evs' (unsubscribe s w))"
proof -
  have "unsubscribe s (run evs' (unsubscribe s w)) = run evs' (unsubscribe s w)"
    if w: "w = run evs (initial d)" and s: "s < length (sessions w)"
  proof -
    from w have i: "invariant w" by (simp add: invariant_reachable)
    then have "invariant (run evs' (unsubscribe s w))"
      by (intro invariant_run invariant_unsubscribe)
    moreover from passes_run[OF quiet_unsubscribe[OF i s], of evs']
    have "quiet s (run evs' (unsubscribe s w))" by (simp add: passes_def)
    ultimately show ?thesis by (rule unsubscribe_quiet)
  qed
  then show ?thesis by (simp only: unsubscribe_funpow log_unsubscribe) blast
qed

theorem unsubscribe_twice_witness:
  "(unsubscribe 0 ^^ Suc 1) pending_session = unsubscribe 0 pending_session \<and>
   (unsubscribe 0 ^^ Suc 1) body_session = unsubscribe 0 body_session \<and>
   log (unsubscribe 0 pending_session) = log pending_session \<and>
   0 < length (sessions pending_session) \<and>
   unsubscribe 0
     (run [Deliver, DispatchEvent ''input'' [0, 1], Frame] (unsubscribe 0 pending_session)) =
     run [Deliver, DispatchEvent ''input'' [0, 1], Frame] (unsubscribe 0 pending_session)"
proof -
  have l: "0 < length (sessions pending_session)"
    by (simp add: pending_session_eq body_session_eq)
  from unsubscribe_twice[where s = 0 and n = 1 and w = pending_session
         and evs = "[Observe body_manifest, DispatchEvent ''input'' [0, 1],
                     Mutate body_changed]"
         and d = page and evs' = "[Deliver, DispatchEvent ''input'' [0, 1], Frame]"]
       unsubscribe_twice[where s = 0 and n = 1 and w = body_session] l pending_session_def
  show ?thesis by blast
qed

section \<open>Custom reads without watch\<close>

text \<open>
  C1. \<open>getWatchEvent\<close> returns \<open>null\<close> for a custom read without \<open>watch\<close> ("Requires explicit
  watch"), and \<open>mutationHandler\<close> takes every entry with no event type as watched through
  the shared observer. Evaluated on the manifest \<open>{x: {selector: 'body', read: fn}}\<close>: no
  listener is registered, and after an attribute of \<open>document.body\<close> changed, the record is
  delivered to the session's handler and the next frame calls the callback.
\<close>

theorem custom_read_is_mutation_watched:
  "body_listeners (run [Observe custom_manifest] (initial page)) = [] \<and>
   watchedSelectors custom_manifest = [Some ''body''] \<and>
   log (run [Observe custom_manifest, Mutate body_changed, Deliver, Frame] (initial page)) =
     [Invoked (Handler 0) body_changed, Callback 0 [(''x'', JString ''c'')]]"
proof -
  have w: "watchedSelectors custom_manifest = [Some ''body'']"
    by (simp add: watchedSelectors_def custom_manifest_def getWatchEvent_def)
  have n: "new_listeners 0 0 custom_manifest = []"
    by (simp add: custom_manifest_def getWatchEvent_def)
  have o: "run [Observe custom_manifest] (initial page) =
     \<lparr>document = page, sharedObserver = Some body_observer, observers_created = 1,
      records = [], observerCallbacks = [Handler 0], onCallbacks = [], body_listeners = [],
      frame_callbacks = [], next_handle = 1,
      sessions = [\<lparr>s_manifest = custom_manifest, pending = None,
                   cleanups = [DeleteSubscriber (Handler 0)]\<rparr>],
      log = []\<rparr>"
    by (simp add: run_Cons run_Nil observe_def Let_def n initial_def ensureObserver_def
          set_add_def body_observer_def)
  have h: "mutation_loop page [Some ''body''] body_changed"
    by (simp add: body_changed_def is_element_def target_hit_def matches_def node_at_def
          page_def elem_def)
  have c: "collect page custom_manifest = Inr [(''x'', JString ''c'')]"
    by (simp add: collect_def collect_entry_def custom_manifest_def querySelectorAll_def
          page_def elem_def assign_def)
  let ?o = "run [Observe custom_manifest] (initial page)"
  have q: "queue_records body_changed ?o = ?o\<lparr>records := body_changed\<rparr>"
    unfolding o
    by (simp add: queue_records_def body_observer_def interested_def document_body_def
          body_changed_def)
  have i: "invoke body_changed (Handler 0) (?o\<lparr>records := []\<rparr>) =
        ?o\<lparr>log := [Invoked (Handler 0) body_changed], frame_callbacks := [(1, 0)],
           next_handle := 2,
           sessions := [\<lparr>s_manifest = custom_manifest, pending = Some 1,
                         cleanups = [DeleteSubscriber (Handler 0)]\<rparr>]\<rparr>"
    unfolding o
    by (simp add: invoke_def mutationHandler_def w h scheduleCallback_eq)
  have "body_changed \<noteq> []" by (simp add: body_changed_def)
  then have dl: "deliver (?o\<lparr>records := body_changed\<rparr>) =
        invoke body_changed (Handler 0) (?o\<lparr>records := []\<rparr>)"
    unfolding o by (simp add: deliver_def notify_def)
  have "run [Observe custom_manifest, Mutate body_changed, Deliver, Frame] (initial page) =
        frame (deliver (queue_records body_changed ?o))"
    by (simp add: run_def)
  also have "\<dots> = frame (?o\<lparr>log := [Invoked (Handler 0) body_changed],
           frame_callbacks := [(1, 0)], next_handle := 2,
           sessions := [\<lparr>s_manifest = custom_manifest, pending = Some 1,
                         cleanups = [DeleteSubscriber (Handler 0)]\<rparr>]\<rparr>)"
    by (simp only: q dl i)
  also have "log \<dots> = [Invoked (Handler 0) body_changed, Callback 0 [(''x'', JString ''c'')]]"
    unfolding o by (simp add: frame_def flush_def set_pending_def c)
  finally show ?thesis using o w by simp
qed

end
